theory Spec2Isabelle
  imports Main "HOL-Library.Word" "HOL-Library.Sublist"
begin

unbundle bit_operations_syntax

section \<open>Package node: the virtual UI tree\<close>

text \<open>
  Go's \<^verbatim>\<open>byte\<close> is an 8-bit word and \<^verbatim>\<open>rune\<close> a 32-bit one. A Go string that
  the layout engine measures and wraps is represented by the sequence of runes that
  ranging over it yields (an undecodable byte shows up as the single rune U+FFFD):
  this is what \<^verbatim>\<open>utf8.RuneCountInString\<close> counts and what \<^verbatim>\<open>strings.Fields\<close>,
  \<^verbatim>\<open>strings.Split\<close> on a newline and \<^verbatim>\<open>strings.TrimLeft\<close> on blanks inspect.
  Go's \<^verbatim>\<open>int\<close> has 64 bits. Its values are the integers from \<open>-2^63\<close> up to
  \<open>2^63 - 1\<close>, and the layout pass wraps around the result of every addition,
  subtraction and multiplication (\<open>i64\<close>). Lengths and rune counts of strings and
  slices are below \<open>2^63\<close> as they stand.
\<close>

type_synonym byte = "8 word"
type_synonym rune = "32 word"
type_synonym gostring = "rune list"

datatype NodeType = TextNode | BoxNode | RowNode | ColumnNode | ListNode | PaneNode | SpacerNode

datatype BorderStyle = BorderNone | BorderSingle | BorderDouble | BorderRounded

record Props =
  Text :: gostring
  Width :: int
  Height :: int
  FlexWeight :: int
  Border :: BorderStyle
  Focusable :: bool
  Key :: gostring
  FG :: byte
  BG :: byte
  Style :: byte
  ScrollOffset :: int
  ScrollToBottom :: bool

datatype Node = Node (Type: NodeType) (Props: Props) (Children: "Node list")

text \<open>The zero value of \<^verbatim>\<open>Props\<close>, from which every builder starts.\<close>

definition Props0 :: Props where
  "Props0 = \<lparr>Text = [], Width = 0, Height = 0, FlexWeight = 0, Border = BorderNone,
     Focusable = False, Key = [], FG = 0, BG = 0, Style = 0, ScrollOffset = 0,
     ScrollToBottom = False\<rparr>"

definition Text_node :: "gostring \<Rightarrow> Node" where
  "Text_node s = Node TextNode (Props0\<lparr>Text := s\<rparr>) []"

definition Row :: "Node list \<Rightarrow> Node" where
  "Row children = Node RowNode Props0 children"

definition Column :: "Node list \<Rightarrow> Node" where
  "Column children = Node ColumnNode Props0 children"

definition Box :: "BorderStyle \<Rightarrow> Node \<Rightarrow> Node" where
  "Box border child = Node BoxNode (Props0\<lparr>Border := border\<rparr>) [child]"

definition Spacer :: Node where
  "Spacer = Node SpacerNode (Props0\<lparr>FlexWeight := 1\<rparr>) []"

definition WithFlex :: "Node \<Rightarrow> int \<Rightarrow> Node" where
  "WithFlex n weight = Node (Type n) ((Props n)\<lparr>FlexWeight := weight\<rparr>) (Children n)"

definition WithScrollToBottom :: "Node \<Rightarrow> Node" where
  "WithScrollToBottom n = Node (Type n) ((Props n)\<lparr>ScrollToBottom := True\<rparr>) (Children n)"

definition WithSize :: "Node \<Rightarrow> int \<Rightarrow> int \<Rightarrow> Node" where
  "WithSize n w h = Node (Type n) ((Props n)\<lparr>Width := w, Height := h\<rparr>) (Children n)"

section \<open>Package layout: text wrapping\<close>

text \<open>\<^verbatim>\<open>unicode.IsSpace\<close>: the Latin-1 white space and the White_Space table.\<close>

definition isSpace :: "rune \<Rightarrow> bool" where
  "isSpace r = (r = 0x09 \<or> r = 0x0A \<or> r = 0x0B \<or> r = 0x0C \<or> r = 0x0D \<or> r = 0x20
      \<or> r = 0x85 \<or> r = 0xA0 \<or> r = 0x1680 \<or> (0x2000 \<le> r \<and> r \<le> 0x200A)
      \<or> r = 0x2028 \<or> r = 0x2029 \<or> r = 0x202F \<or> r = 0x205F \<or> r = 0x3000)"

text \<open>\<^verbatim>\<open>strings.Split(s, "\n")\<close>: the pieces between newlines, at least one.\<close>

fun Split :: "gostring \<Rightarrow> gostring list" where
  "Split [] = [[]]"
| "Split (c # cs) =
     (if c = 0x0A then [] # Split cs
      else (case Split cs of [] \<Rightarrow> [[c]] | l # ls \<Rightarrow> (c # l) # ls))"

text \<open>\<^verbatim>\<open>strings.TrimLeft(s, cutset)\<close>: drop the leading runes that occur in the cutset.\<close>

definition TrimLeft :: "gostring \<Rightarrow> gostring \<Rightarrow> gostring" where
  "TrimLeft s cutset = dropWhile (\<lambda>c. c \<in> set cutset) s"

text \<open>
  \<^verbatim>\<open>strings.Fields\<close>: the maximal runs of non-space runes, in order. \<open>FieldsFrom\<close>
  is the scan, carrying the field that is being read.
\<close>

fun FieldsFrom :: "gostring \<Rightarrow> gostring \<Rightarrow> gostring list" where
  "FieldsFrom cur [] = (if cur = [] then [] else [cur])"
| "FieldsFrom cur (c # cs) =
     (if isSpace c then (if cur = [] then FieldsFrom [] cs else cur # FieldsFrom [] cs)
      else FieldsFrom (cur @ [c]) cs)"

definition Fields :: "gostring \<Rightarrow> gostring list" where
  "Fields s = FieldsFrom [] s"

text \<open>\<^verbatim>\<open>utf8.RuneCountInString\<close>.\<close>

definition RuneCountInString :: "gostring \<Rightarrow> int" where
  "RuneCountInString s = int (length s)"

text \<open>
  The inner loop of \<^verbatim>\<open>wrapText\<close> over \<^verbatim>\<open>words[1:]\<close>. Its state is the list of
  closed lines, the open line and \<^verbatim>\<open>lineLen\<close>; \<open>leading\<close> is the paragraph's indent.
\<close>

definition wrapWord :: "int \<Rightarrow> gostring \<Rightarrow> gostring list \<times> gostring \<times> int \<Rightarrow> gostring
    \<Rightarrow> gostring list \<times> gostring \<times> int" where
  "wrapWord maxWidth leading st w =
     (case st of (lines, line, lineLen) \<Rightarrow>
        (let wLen = RuneCountInString w in
         if lineLen + 1 + wLen \<le> maxWidth
         then (lines, line @ [0x20] @ w, lineLen + (1 + wLen))
         else (lines @ [line], leading @ w, RuneCountInString leading + wLen)))"

text \<open>The body of the outer loop: one paragraph, appended to \<open>lines\<close>.\<close>

definition wrapParagraph :: "int \<Rightarrow> gostring list \<Rightarrow> gostring \<Rightarrow> gostring list" where
  "wrapParagraph maxWidth lines paragraph =
     (let trimmed = TrimLeft paragraph [0x20, 0x09];
          leading = take (length paragraph - length trimmed) paragraph
      in if trimmed = [] then lines @ [leading]
         else (let words = Fields trimmed in
               if length words = 0 then lines @ [leading]
               else (let line = leading @ hd words;
                         lineLen = RuneCountInString line
                     in case foldl (wrapWord maxWidth leading) (lines, line, lineLen) (tl words)
                        of (lines', line', lineLen') \<Rightarrow> lines' @ [line'])))"

definition wrapText :: "gostring \<Rightarrow> int \<Rightarrow> gostring list" where
  "wrapText s maxWidth =
     (if maxWidth \<le> 0 then []
      else if s = [] then [[]]
      else foldl (wrapParagraph maxWidth) [] (Split s))"

section \<open>Package layout: rectangles and the layout pass\<close>

record Rect =
  X :: int
  Y :: int
  W :: int
  H :: int

datatype LayoutNode = LayoutNode (LNode: Node) (LRect: Rect) (LChildren: "LayoutNode list")

text \<open>The value that 64-bit two's complement arithmetic leaves of an integer.\<close>

definition i64 :: "int \<Rightarrow> int" where
  "i64 k = (k + 2 ^ 63) mod 2 ^ 64 - 2 ^ 63"

text \<open>Go's integer division truncates towards zero.\<close>

definition quot :: "int \<Rightarrow> int \<Rightarrow> int" where
  "quot a b = sgn a * sgn b * (\<bar>a\<bar> div \<bar>b\<bar>)"

definition flexWeight :: "Node \<Rightarrow> int" where
  "flexWeight n = FlexWeight (Props n)"

fun measureWidth :: "Node \<Rightarrow> Rect \<Rightarrow> int" where
  "measureWidth (Node t p cs) avail =
     (if Width p > 0 then Width p
      else (case t of
          TextNode \<Rightarrow> RuneCountInString (Text p)
        | BoxNode \<Rightarrow> (case cs of c # _ \<Rightarrow> i64 (measureWidth c avail + 2) | [] \<Rightarrow> 2)
        | RowNode \<Rightarrow> foldl (\<lambda>w c. i64 (w + measureWidth c avail)) 0 cs
        | _ \<Rightarrow> W avail))"

fun measureHeight :: "Node \<Rightarrow> Rect \<Rightarrow> int" where
  "measureHeight (Node t p cs) avail =
     (if Height p > 0 then Height p
      else (case t of
          TextNode \<Rightarrow> int (length (wrapText (Text p) (W avail)))
        | BoxNode \<Rightarrow>
            (case cs of
               c # _ \<Rightarrow>
                 (let innerAvail = \<lparr>X = X avail, Y = Y avail, W = i64 (W avail - 2), H = H avail\<rparr>;
                      innerAvail = (if W innerAvail < 0 then innerAvail\<lparr>W := 0\<rparr> else innerAvail)
                  in i64 (measureHeight c innerAvail + 2))
             | [] \<Rightarrow> 2)
        | ColumnNode \<Rightarrow> foldl (\<lambda>h c. i64 (h + measureHeight c avail)) 0 cs
        | ListNode \<Rightarrow> foldl (\<lambda>h c. i64 (h + measureHeight c avail)) 0 cs
        | PaneNode \<Rightarrow> foldl (\<lambda>h c. i64 (h + measureHeight c avail)) 0 cs
        | RowNode \<Rightarrow>
            foldl (\<lambda>h c. (let ch = measureHeight c avail in if ch > h then ch else h)) 1 cs
        | SpacerNode \<Rightarrow> 1))"

text \<open>\<^verbatim>\<open>shiftY\<close> moves a positioned node and all its descendants by \<open>dy\<close>.\<close>

fun shiftY :: "LayoutNode \<Rightarrow> int \<Rightarrow> LayoutNode" where
  "shiftY (LayoutNode n r cs) dy =
     LayoutNode n (r\<lparr>Y := i64 (Y r + dy)\<rparr>) (map (\<lambda>c. shiftY c dy) cs)"

definition layoutText :: "Node \<Rightarrow> Rect \<Rightarrow> LayoutNode" where
  "layoutText n avail =
     (let lines = wrapText (Text (Props n)) (W avail);
          h = int (length lines);
          h = (if h > H avail then H avail else h)
      in LayoutNode n \<lparr>X = X avail, Y = Y avail, W = W avail, H = h\<rparr> [])"

text \<open>The first pass of \<^verbatim>\<open>layoutRow\<close> and \<^verbatim>\<open>layoutColumn\<close>: \<open>(totalFixed, totalFlex)\<close>.\<close>

definition firstPass :: "(Node \<Rightarrow> Rect \<Rightarrow> int) \<Rightarrow> Node list \<Rightarrow> Rect \<Rightarrow> int \<times> int" where
  "firstPass measureFn children avail =
     foldl (\<lambda>(totalFixed, totalFlex) child.
              (let fw = flexWeight child in
               if fw > 0 then (totalFixed, i64 (totalFlex + fw))
               else (i64 (totalFixed + measureFn child avail), totalFlex)))
           (0, 0) children"

text \<open>The explicit size constraints applied at the end of \<^verbatim>\<open>layout\<close>.\<close>

definition applySize :: "Node \<Rightarrow> LayoutNode \<Rightarrow> LayoutNode" where
  "applySize n ln =
     (let ln = (if Width (Props n) > 0 \<and> Width (Props n) < W (LRect ln)
                then LayoutNode (LNode ln) ((LRect ln)\<lparr>W := Width (Props n)\<rparr>) (LChildren ln)
                else ln);
          ln = (if Height (Props n) > 0 \<and> Height (Props n) < H (LRect ln)
                then LayoutNode (LNode ln) ((LRect ln)\<lparr>H := Height (Props n)\<rparr>) (LChildren ln)
                else ln)
      in ln)"

text \<open>The scroll offset that \<^verbatim>\<open>layoutColumn\<close> applies, from the final \<open>y\<close>.\<close>

definition columnScroll :: "Node \<Rightarrow> Rect \<Rightarrow> int \<Rightarrow> int" where
  "columnScroll n avail y =
     (if ScrollToBottom (Props n)
      then (let totalContentH = i64 (y - Y avail) in
            if totalContentH > H avail
            then (let autoOffset = i64 (totalContentH - H avail);
                      scrollOffset = i64 (autoOffset - ScrollOffset (Props n))
                  in if scrollOffset < 0 then 0 else scrollOffset)
            else 0)
      else ScrollOffset (Props n))"

text \<open>
  The width that the second pass of \<^verbatim>\<open>layoutRow\<close> gives the child at \<open>x\<close>: its
  flex share or its measured width, clamped to what is left of the row and at zero.
\<close>

definition rowChildW :: "Rect \<Rightarrow> int \<Rightarrow> int \<Rightarrow> int \<Rightarrow> Node \<Rightarrow> int" where
  "rowChildW avail remaining totalFlex x child =
     (let fw = flexWeight child;
          childW = (if fw > 0 \<and> totalFlex > 0 then quot (i64 (remaining * fw)) totalFlex
                    else measureWidth child avail);
          childW = (if childW > i64 (W avail - i64 (x - X avail))
                    then i64 (W avail - i64 (x - X avail)) else childW);
          childW = (if childW < 0 then 0 else childW)
      in childW)"

text \<open>The height that the second pass of \<^verbatim>\<open>layoutColumn\<close> gives the child at \<open>y\<close>.\<close>

definition columnChildH :: "Rect \<Rightarrow> bool \<Rightarrow> int \<Rightarrow> int \<Rightarrow> int \<Rightarrow> Node \<Rightarrow> int" where
  "columnChildH avail scrollable remaining totalFlex y child =
     (let fw = flexWeight child;
          childH = (if fw > 0 \<and> totalFlex > 0 then quot (i64 (remaining * fw)) totalFlex
                    else measureHeight child avail)
      in if \<not> scrollable
         then (let childH = (if childH > i64 (H avail - i64 (y - Y avail))
                             then i64 (H avail - i64 (y - Y avail)) else childH)
               in if childH < 0 then 0 else childH)
         else childH)"

text \<open>
  \<^verbatim>\<open>layout\<close> with its per-kind helpers. \<open>dispatch\<close> is the \<^verbatim>\<open>switch\<close> on the node
  type; \<open>rowChildren\<close> and \<open>columnChildren\<close> are the second passes of \<^verbatim>\<open>layoutRow\<close>
  and \<^verbatim>\<open>layoutColumn\<close>, carrying \<open>x\<close> (or \<open>y\<close>); \<open>columnChildren\<close> also returns the
  final \<open>y\<close>.
\<close>

fun layout :: "Node \<Rightarrow> Rect \<Rightarrow> LayoutNode"
and dispatch :: "Node \<Rightarrow> Rect \<Rightarrow> LayoutNode"
and rowChildren :: "Rect \<Rightarrow> int \<Rightarrow> int \<Rightarrow> int \<Rightarrow> Node list \<Rightarrow> LayoutNode list"
and columnChildren :: "Rect \<Rightarrow> bool \<Rightarrow> int \<Rightarrow> int \<Rightarrow> int \<Rightarrow> Node list \<Rightarrow> LayoutNode list \<times> int"
where
  "layout (Node t p cs) avail = applySize (Node t p cs) (dispatch (Node t p cs) avail)"
| "dispatch (Node t p cs) avail =
     (case t of
        TextNode \<Rightarrow> layoutText (Node t p cs) avail
      | RowNode \<Rightarrow>
          (if length cs = 0 then LayoutNode (Node t p cs) avail []
           else (case firstPass measureWidth cs avail of (totalFixed, totalFlex) \<Rightarrow>
                  (let remaining = i64 (W avail - totalFixed);
                       remaining = (if remaining < 0 then 0 else remaining)
                   in LayoutNode (Node t p cs) avail
                        (rowChildren avail remaining totalFlex (X avail) cs))))
      | BoxNode \<Rightarrow>
          (case cs of
             [] \<Rightarrow> LayoutNode (Node t p cs) avail []
           | c # _ \<Rightarrow>
               (let innerRect = \<lparr>X = i64 (X avail + 1), Y = i64 (Y avail + 1),
                                 W = i64 (W avail - 2), H = i64 (H avail - 2)\<rparr>;
                    innerRect = (if W innerRect < 0 then innerRect\<lparr>W := 0\<rparr> else innerRect);
                    innerRect = (if H innerRect < 0 then innerRect\<lparr>H := 0\<rparr> else innerRect)
                in LayoutNode (Node t p cs) avail [layout c innerRect]))
      | SpacerNode \<Rightarrow> LayoutNode (Node t p cs) avail []
      | _ \<Rightarrow>
          (if length cs = 0 then LayoutNode (Node t p cs) avail []
           else (let scrollable = (ScrollOffset p > 0 \<or> ScrollToBottom p) in
                 case firstPass measureHeight cs avail of (totalFixed, totalFlex) \<Rightarrow>
                  (let remaining = i64 (H avail - totalFixed);
                       remaining = (if remaining < 0 then 0 else remaining)
                   in case columnChildren avail scrollable remaining totalFlex (Y avail) cs of
                        (children, y) \<Rightarrow>
                          (let scrollOffset = columnScroll (Node t p cs) avail y in
                           LayoutNode (Node t p cs) avail
                             (if scrollOffset > 0
                              then map (\<lambda>c. shiftY c (i64 (- scrollOffset))) children
                              else children))))))"
| "rowChildren avail remaining totalFlex x [] = []"
| "rowChildren avail remaining totalFlex x (child # rest) =
     (let childW = rowChildW avail remaining totalFlex x child;
          childRect = \<lparr>X = x, Y = Y avail, W = childW, H = H avail\<rparr>
      in layout child childRect # rowChildren avail remaining totalFlex (i64 (x + childW)) rest)"
| "columnChildren avail scrollable remaining totalFlex y [] = ([], y)"
| "columnChildren avail scrollable remaining totalFlex y (child # rest) =
     (let childH = columnChildH avail scrollable remaining totalFlex y child;
          childRect = \<lparr>X = X avail, Y = y, W = W avail, H = childH\<rparr>
      in case columnChildren avail scrollable remaining totalFlex (i64 (y + childH)) rest of
           (children, y') \<Rightarrow> (layout child childRect # children, y'))"

definition Layout :: "Node \<Rightarrow> int \<Rightarrow> int \<Rightarrow> LayoutNode" where
  "Layout root termW termH = layout root \<lparr>X = 0, Y = 0, W = termW, H = termH\<rparr>"

section \<open>Package input: raw bytes to key events\<close>

datatype KeyType = RuneKey | Up | Down | Left | Right | Tab | ShiftTab | Enter | Escape
  | Backspace | Delete | Home | End | PageUp | PageDown | CtrlC | CtrlD | CtrlZ | ShiftEnter
  | FocusIn | FocusOut | MouseClick | MouseScrollUp | MouseScrollDown
  | AltLeft | AltRight | AltUp | AltDown | Paste

text \<open>
  The struct \<^verbatim>\<open>Key\<close> with its fields \<^verbatim>\<open>Type\<close>, \<^verbatim>\<open>Rune\<close> and \<^verbatim>\<open>Text\<close>. The text
  of a paste is \<^verbatim>\<open>string(bytes)\<close>, kept as the bytes themselves.
\<close>

record Key =
  TypeK :: KeyType
  Rune :: rune
  TextK :: "byte list"

text \<open>The composite literals \<^verbatim>\<open>Key{}\<close> and \<^verbatim>\<open>Key{Type: t}\<close>.\<close>

definition Key0 :: Key where
  "Key0 = \<lparr>TypeK = RuneKey, Rune = 0, TextK = []\<rparr>"

definition key :: "KeyType \<Rightarrow> Key" where
  "key t = \<lparr>TypeK = t, Rune = 0, TextK = []\<rparr>"

definition pasteStart :: "byte list" where
  "pasteStart = [0x1b, 0x5b, 0x32, 0x30, 0x30, 0x7e]"

definition pasteEnd :: "byte list" where
  "pasteEnd = [0x1b, 0x5b, 0x32, 0x30, 0x31, 0x7e]"

definition hasPrefixAt :: "byte list \<Rightarrow> nat \<Rightarrow> byte list \<Rightarrow> bool" where
  "hasPrefixAt data offset pre =
     (if offset + length pre > length data then False
      else list_all (\<lambda>i. data ! (offset + i) = pre ! i) [0..<length pre])"

text \<open>
  \<^verbatim>\<open>indexBytes\<close>: the first \<open>i\<close> in \<open>0 .. len(haystack) - len(needle)\<close> at which the
  needle occurs; \<open>None\<close> stands for the result \<open>-1\<close>.
\<close>

definition indexBytes :: "byte list \<Rightarrow> byte list \<Rightarrow> nat option" where
  "indexBytes haystack needle =
     List.find (\<lambda>i. list_all (\<lambda>j. haystack ! (i + j) = needle ! j) [0..<length needle])
       [0..<Suc (length haystack) - length needle]"

text \<open>\<^verbatim>\<open>skipCSI\<close>: one more than the index of the first final byte, or 0.\<close>

definition skipCSI :: "byte list \<Rightarrow> nat" where
  "skipCSI data =
     (case List.find (\<lambda>j. data ! j \<ge> 0x40 \<and> data ! j \<le> 0x7E) [0..<length data] of
        Some j \<Rightarrow> j + 1
      | None \<Rightarrow> 0)"

text \<open>\<^verbatim>\<open>parseSGRButton\<close>: the digits before the first \<open>;\<close>, in a 64-bit \<^verbatim>\<open>int\<close>.\<close>

definition parseSGRButton :: "byte list \<Rightarrow> 64 word" where
  "parseSGRButton data =
     foldl (\<lambda>n b. if b \<ge> 0x30 \<and> b \<le> 0x39 then n * 10 + ucast (b - 0x30) else n) 0
       (takeWhile (\<lambda>b. b \<noteq> 0x3b) data)"

text \<open>
  \<^verbatim>\<open>parseCSI\<close> tries its rules in order; each of the following is one of its blocks
  and yields \<open>None\<close> where the code falls through to the next block.
\<close>

definition csiLetter :: "byte list \<Rightarrow> (Key \<times> nat) option" where
  "csiLetter data =
     (if data ! 0 = 0x41 then Some (key Up, 1)
      else if data ! 0 = 0x42 then Some (key Down, 1)
      else if data ! 0 = 0x43 then Some (key Right, 1)
      else if data ! 0 = 0x44 then Some (key Left, 1)
      else if data ! 0 = 0x48 then Some (key Home, 1)
      else if data ! 0 = 0x46 then Some (key End, 1)
      else if data ! 0 = 0x5a then Some (key ShiftTab, 1)
      else if data ! 0 = 0x49 then Some (key FocusIn, 1)
      else if data ! 0 = 0x4f then Some (key FocusOut, 1)
      else None)"

definition csiAlt :: "byte list \<Rightarrow> (Key \<times> nat) option" where
  "csiAlt data =
     (if length data \<ge> 4 \<and> data ! 0 = 0x31 \<and> data ! 1 = 0x3b \<and> data ! 2 = 0x33
      then (if data ! 3 = 0x41 then Some (key AltUp, 4)
            else if data ! 3 = 0x42 then Some (key AltDown, 4)
            else if data ! 3 = 0x43 then Some (key AltRight, 4)
            else if data ! 3 = 0x44 then Some (key AltLeft, 4)
            else None)
      else None)"

definition csiTilde :: "byte list \<Rightarrow> (Key \<times> nat) option" where
  "csiTilde data =
     (if length data \<ge> 2 \<and> data ! 1 = 0x7e
      then (if data ! 0 = 0x33 then Some (key Delete, 2)
            else if data ! 0 = 0x35 then Some (key PageUp, 2)
            else if data ! 0 = 0x36 then Some (key PageDown, 2)
            else None)
      else None)"

definition csiKitty :: "byte list \<Rightarrow> (Key \<times> nat) option" where
  "csiKitty data =
     (if length data \<ge> 4 \<and> data ! 0 = 0x31 \<and> data ! 1 = 0x33 \<and> data ! 2 = 0x3b \<and> data ! 3 = 0x32
      then (if length data \<ge> 5 \<and> data ! 4 = 0x75 then Some (key ShiftEnter, 5) else None)
      else None)"

definition csiSGRMouse :: "byte list \<Rightarrow> (Key \<times> nat) option" where
  "csiSGRMouse data =
     (if length data \<ge> 1 \<and> data ! 0 = 0x3c
      then (case List.find (\<lambda>j. data ! j = 0x4d \<or> data ! j = 0x6d) [1..<length data] of
              Some j \<Rightarrow>
                (let btn = parseSGRButton (take (j - 1) (drop 1 data));
                     kt = (if btn = 64 then MouseScrollUp
                           else if btn = 65 then MouseScrollDown else MouseClick)
                 in Some (key kt, j + 1))
            | None \<Rightarrow> None)
      else None)"

definition csiMouse :: "byte list \<Rightarrow> (Key \<times> nat) option" where
  "csiMouse data =
     (if length data \<ge> 1 \<and> data ! 0 = 0x4d \<and> length data \<ge> 4
      then (let btn = data ! 1 - 32;
                kt = (if btn = 64 then MouseScrollUp
                      else if btn = 65 then MouseScrollDown else MouseClick)
            in Some (key kt, 4))
      else None)"

definition parseCSI :: "byte list \<Rightarrow> Key \<times> nat" where
  "parseCSI data =
     (if length data = 0 then (Key0, 0)
      else case csiLetter data of Some r \<Rightarrow> r | None \<Rightarrow>
           (case csiAlt data of Some r \<Rightarrow> r | None \<Rightarrow>
           (case csiTilde data of Some r \<Rightarrow> r | None \<Rightarrow>
           (case csiKitty data of Some r \<Rightarrow> r | None \<Rightarrow>
           (case csiSGRMouse data of Some r \<Rightarrow> r | None \<Rightarrow>
           (case csiMouse data of Some r \<Rightarrow> r | None \<Rightarrow> (Key0, 0)))))))"

definition decodeRune :: "byte list \<Rightarrow> rune \<times> nat" where
  "decodeRune data =
     (if length data = 0 then (0, 0)
      else (let b = data ! 0 in
        if b < 0x80 then (ucast b, 1)
        else (case (if b AND 0xE0 = 0xC0 then Some (2, ucast (b AND 0x1F))
                    else if b AND 0xF0 = 0xE0 then Some (3, ucast (b AND 0x0F))
                    else if b AND 0xF8 = 0xF0 then Some (4, ucast (b AND 0x07))
                    else None)
              of None \<Rightarrow> (0x3F, 1)
               | Some (sz, r) \<Rightarrow>
                   if length data < sz then (0x3F, 1)
                   else (foldl (\<lambda>r i. push_bit 6 r OR ucast (data ! i AND 0x3F)) r [1..<sz],
                         sz))))"

text \<open>
  One turn of the loop of \<^verbatim>\<open>parseInput\<close>, on the bytes \<^verbatim>\<open>data[i:]\<close> that are left
  (never empty): the keys it appends and the number of bytes by which \<open>i\<close> advances,
  or \<open>None\<close> where the code returns at once (a paste without its end marker).
\<close>

definition parseStep :: "byte list \<Rightarrow> (Key list \<times> nat) option" where
  "parseStep data =
     (if hasPrefixAt data 0 pasteStart
      then (let start = length pasteStart in
            case indexBytes (drop start data) pasteEnd of
              Some end \<Rightarrow>
                Some ([\<lparr>TypeK = Paste, Rune = 0, TextK = take end (drop start data)\<rparr>],
                      start + end + length pasteEnd)
            | None \<Rightarrow> None)
      else if data ! 0 = 0x1b
      then (case (if 1 < length data \<and> data ! 1 = 0x5b
                  then (case parseCSI (drop 2 data) of (k, consumed) \<Rightarrow>
                          if consumed > 0 then Some ([k], 2 + consumed)
                          else (let skipped = skipCSI (drop 2 data) in
                                if skipped > 0 then Some ([], 2 + skipped) else None))
                  else None)
            of Some r \<Rightarrow> Some r
             | None \<Rightarrow>
                 if 1 < length data \<and> (data ! 1 = 0x0d \<or> data ! 1 = 0x0a)
                 then Some ([key ShiftEnter], 2)
                 else Some ([key Escape], 1))
      else if data ! 0 = 0x0d then Some ([key Enter], 1)
      else if data ! 0 = 0x0a then Some ([key ShiftEnter], 1)
      else if data ! 0 = 0x09 then Some ([key Tab], 1)
      else if data ! 0 = 0x7f \<or> data ! 0 = 0x08 then Some ([key Backspace], 1)
      else if data ! 0 = 0x03 then Some ([key CtrlC], 1)
      else if data ! 0 = 0x04 then Some ([key CtrlD], 1)
      else if data ! 0 = 0x1a then Some ([key CtrlZ], 1)
      else if data ! 0 \<ge> 0x20
      then (case decodeRune data of (r, sz) \<Rightarrow>
              Some ([\<lparr>TypeK = RuneKey, Rune = r, TextK = []\<rparr>], sz))
      else Some ([], 1))"

text \<open>
  \<^verbatim>\<open>parseInput\<close>, as a function of the bytes from index \<open>i\<close> on: every test the loop
  makes looks at \<^verbatim>\<open>data[i:]\<close> only.
\<close>

function parseInput :: "byte list \<Rightarrow> Key list" where
  "parseInput data =
     (if data = [] then []
      else (case parseStep data of
              None \<Rightarrow> []
            | Some (ks, n) \<Rightarrow> ks @ parseInput (drop n data)))"
  by pat_completeness auto
termination
proof (relation "measure length")
  show "wf (measure length)" by simp
next
  fix data :: "byte list" and x2 ks n
  assume ne: "data \<noteq> []" and st: "parseStep data = Some x2" and x2: "(ks, n) = x2"
  have dr: "0 < snd (decodeRune data)"
    using ne by (auto simp: decodeRune_def Let_def split: option.splits prod.splits)
  have ps: "length pasteStart = 6"
    by (simp add: pasteStart_def)
  have "0 < n"
    using st x2 dr ps unfolding parseStep_def Let_def
    by (auto split: if_splits option.splits prod.splits)
  then show "(drop n data, data) \<in> measure length" using ne by simp
qed

declare parseInput.simps [simp del]

text \<open>
  \<^verbatim>\<open>ReadKeys\<close>. The reader goroutine forwards every read of at least one byte; the
  parser goroutine sees these chunks and, while it waits after a chunk that ends in
  ESC, the expiry of \<^verbatim>\<open>escTimeout\<close>. The end of the list is the end of the input.
  The context is taken not to be cancelled, so that every send succeeds. \<open>pasteBuf\<close>
  is \<open>None\<close> for \<^verbatim>\<open>nil\<close>.
\<close>

datatype event = Data "byte list" | Timeout

fun keyParser :: "byte list option \<Rightarrow> event list \<Rightarrow> Key list" where
  "keyParser pasteBuf [] = []"
| "keyParser pasteBuf (Timeout # es) = keyParser pasteBuf es"
| "keyParser (Some pasteBuf) (Data data # es) =
     (let pasteBuf = pasteBuf @ data in
      case indexBytes pasteBuf pasteEnd of
        None \<Rightarrow> keyParser (Some pasteBuf) es
      | Some end \<Rightarrow>
          (let text = take end pasteBuf;
               remainder = drop (end + length pasteEnd) pasteBuf
           in \<lparr>TypeK = Paste, Rune = 0, TextK = text\<rparr>
              # (if length remainder > 0 then parseInput remainder else [])
              @ keyParser None es))"
| "keyParser None (Data data # es) =
     (if data ! (length data - 1) = 0x1b
      then (if length data > 1 then parseInput (take (length data - 1) data) else [])
           @ (case es of
                [] \<Rightarrow> [key Escape]
              | Timeout # es' \<Rightarrow> key Escape # keyParser None es'
              | Data data2 # es' \<Rightarrow>
                  (if data2 ! 0 = 0x5b then parseInput (0x1b # data2)
                   else key Escape # parseInput data2)
                  @ keyParser None es')
      else (case indexBytes data pasteStart of
              Some pasteIdx \<Rightarrow>
                (if pasteIdx > 0 then parseInput (take pasteIdx data) else [])
                @ (let after = drop (pasteIdx + length pasteStart) data in
                   case indexBytes after pasteEnd of
                     Some endIdx \<Rightarrow> parseInput (drop pasteIdx data) @ keyParser None es
                   | None \<Rightarrow> keyParser (Some after) es)
            | None \<Rightarrow> parseInput data @ keyParser None es))"

definition ReadKeys :: "event list \<Rightarrow> Key list" where
  "ReadKeys reads = keyParser None (filter (\<lambda>e. e \<noteq> Data []) reads)"

section \<open>Packages ansi and app: terminal setup and teardown\<close>

text \<open>The writer is the list of characters written so far.\<close>

definition HideCursor :: "string \<Rightarrow> string" where
  "HideCursor w = w @ CHR 0x1B # ''[?25l''"

definition ShowCursor :: "string \<Rightarrow> string" where
  "ShowCursor w = w @ CHR 0x1B # ''[?25h''"

definition ClearScreen :: "string \<Rightarrow> string" where
  "ClearScreen w = w @ CHR 0x1B # ''[2J''"

definition EnterAltScreen :: "string \<Rightarrow> string" where
  "EnterAltScreen w = w @ CHR 0x1B # ''[?1049h''"

definition LeaveAltScreen :: "string \<Rightarrow> string" where
  "LeaveAltScreen w = w @ CHR 0x1B # ''[?1049l''"

definition EnableFocusReporting :: "string \<Rightarrow> string" where
  "EnableFocusReporting w = w @ CHR 0x1B # ''[?1004h''"

definition DisableFocusReporting :: "string \<Rightarrow> string" where
  "DisableFocusReporting w = w @ CHR 0x1B # ''[?1004l''"

definition EnableMouseReporting :: "string \<Rightarrow> string" where
  "EnableMouseReporting w = w @ CHR 0x1B # ''[?1000h'' @ CHR 0x1B # ''[?1006h''"

definition DisableMouseReporting :: "string \<Rightarrow> string" where
  "DisableMouseReporting w = w @ CHR 0x1B # ''[?1006l'' @ CHR 0x1B # ''[?1000l''"

definition EnableBracketedPaste :: "string \<Rightarrow> string" where
  "EnableBracketedPaste w = w @ CHR 0x1B # ''[?2004h''"

definition DisableBracketedPaste :: "string \<Rightarrow> string" where
  "DisableBracketedPaste w = w @ CHR 0x1B # ''[?2004l''"

text \<open>
  \<^verbatim>\<open>App.Run\<close>, as far as the terminal setup goes. The main loop is summed up by what
  it writes (\<open>frames\<close>, the rendered diffs) and by the way it is left; the deferred
  function runs after it whichever way that is. The result is the output and the
  error returned (\<open>True\<close> for \<^verbatim>\<open>ctx.Err()\<close>, \<open>False\<close> for \<^verbatim>\<open>nil\<close>).
\<close>

datatype exit = CtxDone | KeysClosed | QuitCtrlC | ModelNil | Panicked

definition Run :: "string \<Rightarrow> exit \<Rightarrow> string \<times> bool" where
  "Run frames how =
     (let out = [];
          out = EnterAltScreen out;
          out = HideCursor out;
          out = EnableFocusReporting out;
          out = EnableMouseReporting out;
          out = ClearScreen out;
          out = out @ frames;
          out = DisableMouseReporting out;
          out = DisableFocusReporting out;
          out = ShowCursor out;
          out = LeaveAltScreen out
      in (out, how = CtxDone))"

section \<open>Notions used in the statements\<close>

text \<open>Every rectangle of a positioned tree has a non-negative width and height.\<close>

fun nonnegRects :: "LayoutNode \<Rightarrow> bool" where
  "nonnegRects (LayoutNode n r cs) = (0 \<le> W r \<and> 0 \<le> H r \<and> (\<forall>c \<in> set cs. nonnegRects c))"

text \<open>
  A tree without scrolling: no Column, List or Pane in it has a scroll offset or
  is pinned to the bottom.
\<close>

fun unscrolled :: "Node \<Rightarrow> bool" where
  "unscrolled (Node t p cs) =
     ((t = ColumnNode \<or> t = ListNode \<or> t = PaneNode \<longrightarrow>
         \<not> (ScrollOffset p > 0 \<or> ScrollToBottom p))
      \<and> (\<forall>c \<in> set cs. unscrolled c))"

text \<open>
  The shape of a tree: its node and the shapes below it. \<open>shapeOfLayout\<close> reads it
  off a positioned tree; \<open>shapeOfNode\<close> is the shape that the description gives a
  node tree: a Row, Column, List or Pane keeps all its children in order, a Box
  keeps its first child only, a Text or a Spacer has none.
\<close>

datatype shape = Shape Node "shape list"

fun shapeOfLayout :: "LayoutNode \<Rightarrow> shape" where
  "shapeOfLayout (LayoutNode n r cs) = Shape n (map shapeOfLayout cs)"

fun shapeOfNode :: "Node \<Rightarrow> shape" where
  "shapeOfNode (Node t p cs) =
     Shape (Node t p cs)
       (case t of
          RowNode \<Rightarrow> map shapeOfNode cs
        | ColumnNode \<Rightarrow> map shapeOfNode cs
        | ListNode \<Rightarrow> map shapeOfNode cs
        | PaneNode \<Rightarrow> map shapeOfNode cs
        | BoxNode \<Rightarrow> (case cs of [] \<Rightarrow> [] | c # _ \<Rightarrow> [shapeOfNode c])
        | TextNode \<Rightarrow> []
        | SpacerNode \<Rightarrow> [])"

text \<open>The values of a 64-bit signed integer.\<close>

definition in64 :: "int \<Rightarrow> bool" where
  "in64 k = (- (2 ^ 63) \<le> k \<and> k < 2 ^ 63)"

text \<open>
  The description of wrapping in its own words, to be compared with the code: a
  word fits on the open line \<open>cur\<close> when the length of the line, one space and the
  length of the word stay within the width; a word that does not fit closes the line
  and opens a new one made of the indent and that word.
\<close>

fun spec_greedyLines :: "gostring \<Rightarrow> int \<Rightarrow> gostring \<Rightarrow> gostring list \<Rightarrow> gostring list" where
  "spec_greedyLines leading maxW cur [] = [cur]"
| "spec_greedyLines leading maxW cur (w # ws) =
     (if RuneCountInString cur + 1 + RuneCountInString w \<le> maxW
      then spec_greedyLines leading maxW (cur @ [0x20] @ w) ws
      else cur # spec_greedyLines leading maxW (leading @ w) ws)"

text \<open>The indent of a paragraph: its leading spaces and tabs.\<close>

definition spec_leadingOf :: "gostring \<Rightarrow> gostring" where
  "spec_leadingOf p = takeWhile (\<lambda>c. c = 0x20 \<or> c = 0x09) p"

text \<open>The lines that one paragraph is expected to give.\<close>

definition spec_paragraphLines :: "int \<Rightarrow> gostring \<Rightarrow> gostring list" where
  "spec_paragraphLines maxW p =
     (case Fields p of
        [] \<Rightarrow> [spec_leadingOf p]
      | w # ws \<Rightarrow> spec_greedyLines (spec_leadingOf p) maxW (spec_leadingOf p @ w) ws)"

text \<open>\<^verbatim>\<open>strings.Join\<close>, with which lines are put together again.\<close>

fun Join :: "gostring list \<Rightarrow> gostring \<Rightarrow> gostring" where
  "Join [] sep = []"
| "Join [x] sep = x"
| "Join (x # y # ys) sep = x @ sep @ Join (y # ys) sep"

text \<open>
  Two spaces next to each other, and a text with such a pair in a paragraph after
  the paragraph's indent.
\<close>

fun adjacentSpaces :: "gostring \<Rightarrow> bool" where
  "adjacentSpaces [] = False"
| "adjacentSpaces [a] = False"
| "adjacentSpaces (a # b # cs) = ((a = 0x20 \<and> b = 0x20) \<or> adjacentSpaces (b # cs))"

definition interiorSpaces :: "gostring \<Rightarrow> bool" where
  "interiorSpaces s = (\<exists>p \<in> set (Split s). adjacentSpaces (TrimLeft p [0x20, 0x09]))"

text \<open>A word as \<^verbatim>\<open>strings.Fields\<close> returns them: not empty and free of white space.\<close>

definition properWord :: "gostring \<Rightarrow> bool" where
  "properWord w = (w \<noteq> [] \<and> (\<forall>c \<in> set w. \<not> isSpace c))"

text \<open>
  The description of a row in its own words, to be compared with the code: the sum
  of the measured widths of the children without flex weight, the sum of the flex
  weights, and the share of a child, its measured width or
  \<open>floor(remaining * weight / total_flex)\<close>.
\<close>

definition spec_intrinsicTotal :: "Node list \<Rightarrow> Rect \<Rightarrow> int" where
  "spec_intrinsicTotal cs avail =
     sum_list (map (\<lambda>c. measureWidth c avail) (filter (\<lambda>c. \<not> flexWeight c > 0) cs))"

definition spec_flexTotal :: "Node list \<Rightarrow> int" where
  "spec_flexTotal cs = sum_list (map flexWeight (filter (\<lambda>c. flexWeight c > 0) cs))"

definition spec_rowShare :: "Node list \<Rightarrow> Rect \<Rightarrow> Node \<Rightarrow> int" where
  "spec_rowShare cs avail c =
     (if flexWeight c > 0
      then (max 0 (W avail - spec_intrinsicTotal cs avail) * flexWeight c) div spec_flexTotal cs
      else measureWidth c avail)"

text \<open>
  The widths of the children of a row, left to right, \<open>used\<close> being the width given
  to the children before: a child with a flex weight gets its share, a child without
  gets its measured width or, when that is less, the width still left in the row.
\<close>

fun spec_rowWidths :: "Node list \<Rightarrow> Rect \<Rightarrow> int \<Rightarrow> Node list \<Rightarrow> int list" where
  "spec_rowWidths row avail used [] = []"
| "spec_rowWidths row avail used (c # cs) =
     (let w = (if flexWeight c > 0 then spec_rowShare row avail c
               else min (measureWidth c avail) (W avail - used))
      in w # spec_rowWidths row avail (used + w) cs)"

section \<open>Properties of text wrapping\<close>

subsection \<open>The code packs words as described\<close>

lemma FieldsFrom_blank:
  "\<forall>c \<in> set b. isSpace c \<Longrightarrow> FieldsFrom [] (b @ s) = FieldsFrom [] s"
  by (induction b) simp_all

lemma isSpace_blank: "c = 0x20 \<or> c = 0x09 \<Longrightarrow> isSpace c"
  by (auto simp: isSpace_def)

lemma TrimLeft_blank: "TrimLeft p [0x20, 0x09] = dropWhile (\<lambda>c. c = 0x20 \<or> c = 0x09) p"
  by (simp add: TrimLeft_def)

lemma leading_take:
  "take (length p - length (TrimLeft p [0x20, 0x09])) p = spec_leadingOf p"
proof -
  let ?P = "\<lambda>c. c = 0x20 \<or> c = (0x09::rune)"
  have "length p = length (takeWhile ?P p) + length (dropWhile ?P p)"
    by (metis length_append takeWhile_dropWhile_id)
  then have "length p - length (dropWhile ?P p) = length (takeWhile ?P p)" by simp
  then show ?thesis
    by (simp add: TrimLeft_blank spec_leadingOf_def takeWhile_eq_take[symmetric])
qed

lemma leading_trim: "spec_leadingOf p @ TrimLeft p [0x20, 0x09] = p"
  by (simp add: TrimLeft_blank spec_leadingOf_def)

lemma leadingOf_blank: "\<forall>c \<in> set (spec_leadingOf p). c = 0x20 \<or> c = 0x09"
  unfolding spec_leadingOf_def by (auto dest: set_takeWhileD)

lemma Fields_TrimLeft: "Fields (TrimLeft p [0x20, 0x09]) = Fields p"
proof -
  have "Fields p = Fields (spec_leadingOf p @ TrimLeft p [0x20, 0x09])"
    by (simp add: leading_trim)
  also have "\<dots> = Fields (TrimLeft p [0x20, 0x09])"
    unfolding Fields_def using leadingOf_blank[of p]
    by (intro FieldsFrom_blank) (auto intro: isSpace_blank)
  finally show ?thesis by simp
qed

lemma wrapWord_foldl:
  "(case foldl (wrapWord maxW lead) (lines, line, RuneCountInString line) ws of
      (ls, l, n) \<Rightarrow> ls @ [l])
   = lines @ spec_greedyLines lead maxW line ws"
proof (induction ws arbitrary: lines line)
  case Nil
  show ?case by simp
next
  case (Cons w ws)
  show ?case
  proof (cases "RuneCountInString line + 1 + RuneCountInString w \<le> maxW")
    case True
    have "wrapWord maxW lead (lines, line, RuneCountInString line) w
        = (lines, line @ [0x20] @ w, RuneCountInString (line @ [0x20] @ w))"
      using True by (simp add: wrapWord_def Let_def RuneCountInString_def)
    then show ?thesis using True Cons.IH[of lines "line @ [0x20] @ w"] by simp
  next
    case False
    have "wrapWord maxW lead (lines, line, RuneCountInString line) w
        = (lines @ [line], lead @ w, RuneCountInString (lead @ w))"
      using False by (simp add: wrapWord_def Let_def RuneCountInString_def)
    then show ?thesis using False Cons.IH[of "lines @ [line]" "lead @ w"] by simp
  qed
qed

lemma wrapParagraph_lines:
  "wrapParagraph maxW lines p = lines @ spec_paragraphLines maxW p"
proof (cases "Fields p")
  case Nil
  then have f: "Fields (TrimLeft p [0x20, 0x09]) = []" by (simp add: Fields_TrimLeft)
  have e: "TrimLeft p [0x20, 0x09] = [] \<Longrightarrow> spec_leadingOf p = p"
    using leading_trim[of p] by simp
  show ?thesis
    using Nil f e by (auto simp: wrapParagraph_def Let_def leading_take spec_paragraphLines_def)
next
  case (Cons w ws)
  then have f: "Fields (TrimLeft p [0x20, 0x09]) = w # ws" by (simp add: Fields_TrimLeft)
  then have ne: "TrimLeft p [0x20, 0x09] \<noteq> []" by (auto simp: Fields_def)
  show ?thesis
    using Cons f ne wrapWord_foldl[of maxW "spec_leadingOf p" lines "spec_leadingOf p @ w" ws]
    by (simp add: wrapParagraph_def Let_def leading_take spec_paragraphLines_def)
qed

lemma wrapParagraph_foldl:
  "foldl (wrapParagraph maxW) acc ps = acc @ concat (map (spec_paragraphLines maxW) ps)"
  by (induction ps arbitrary: acc) (simp_all add: wrapParagraph_lines)

lemma wrapText_paragraphs:
  "0 < maxW \<Longrightarrow> wrapText s maxW = concat (map (spec_paragraphLines maxW) (Split s))"
  by (cases "s = []")
    (simp_all add: wrapText_def wrapParagraph_foldl spec_paragraphLines_def Fields_def spec_leadingOf_def)

lemma greedyLines_bound:
  assumes "l \<in> set (spec_greedyLines lead maxW cur ws)"
  shows "RuneCountInString l \<le> maxW \<or> l = cur \<or> (\<exists>word \<in> set ws. l = lead @ word)"
  using assms
proof (induction ws arbitrary: cur)
  case Nil
  then show ?case by simp
next
  case (Cons w ws)
  show ?case
  proof (cases "RuneCountInString cur + 1 + RuneCountInString w \<le> maxW")
    case True
    then have "l \<in> set (spec_greedyLines lead maxW (cur @ [0x20] @ w) ws)"
      using Cons.prems by simp
    from Cons.IH[OF this] True show ?thesis
      by (auto simp: RuneCountInString_def)
  next
    case False
    then have "l = cur \<or> l \<in> set (spec_greedyLines lead maxW (lead @ w) ws)"
      using Cons.prems by simp
    then show ?thesis
    proof
      assume "l = cur"
      then show ?thesis by simp
    next
      assume "l \<in> set (spec_greedyLines lead maxW (lead @ w) ws)"
      from Cons.IH[OF this] show ?thesis by auto
    qed
  qed
qed

text \<open>
  Claim C1, amended. For every string and every width above zero, \<^verbatim>\<open>wrapText\<close>
  packs the words of each paragraph greedily: the next word joins the open line iff
  the length of the line plus one plus the length of the word is at most the width,
  and otherwise the line is closed and the next one starts with the paragraph's
  indent followed by that word. No line, measured in runes, is longer than the
  width, unless it is the indent of its paragraph followed by one single word (left
  unbroken, alone on the line), or the indent alone of a paragraph without words.
\<close>

theorem wrapText_lines:
  assumes "0 < maxW"
  shows "wrapText s maxW = concat (map (spec_paragraphLines maxW) (Split s))
    \<and> (\<forall>l \<in> set (wrapText s maxW).
          RuneCountInString l \<le> maxW
          \<or> (\<exists>p \<in> set (Split s).
                (Fields p = [] \<and> l = spec_leadingOf p)
                \<or> (\<exists>word \<in> set (Fields p). l = spec_leadingOf p @ word)))"
proof (intro conjI ballI)
  show eq: "wrapText s maxW = concat (map (spec_paragraphLines maxW) (Split s))"
    using assms by (rule wrapText_paragraphs)
  fix l assume "l \<in> set (wrapText s maxW)"
  then obtain p where p: "p \<in> set (Split s)" and l: "l \<in> set (spec_paragraphLines maxW p)"
    unfolding eq by auto
  show "RuneCountInString l \<le> maxW
          \<or> (\<exists>p \<in> set (Split s).
                (Fields p = [] \<and> l = spec_leadingOf p)
                \<or> (\<exists>word \<in> set (Fields p). l = spec_leadingOf p @ word))"
  proof (cases "Fields p")
    case Nil
    then have "l = spec_leadingOf p" using l by (simp add: spec_paragraphLines_def)
    with Nil p show ?thesis by blast
  next
    case (Cons w ws)
    then have "l \<in> set (spec_greedyLines (spec_leadingOf p) maxW (spec_leadingOf p @ w) ws)"
      using l by (simp add: spec_paragraphLines_def)
    from greedyLines_bound[OF this]
    have "RuneCountInString l \<le> maxW \<or> (\<exists>word \<in> set (Fields p). l = spec_leadingOf p @ word)"
      using Cons by auto
    with p show ?thesis by blast
  qed
qed

theorem wrapText_lines_witness:
  "(0::int) < 11
   \<and> wrapText [0x68, 0x65, 0x6c, 0x6c, 0x6f, 0x20, 0x77, 0x6f, 0x72, 0x6c, 0x64, 0x20, 0x66, 0x6f, 0x6f] 11
     = concat (map (spec_paragraphLines 11)
         (Split [0x68, 0x65, 0x6c, 0x6c, 0x6f, 0x20, 0x77, 0x6f, 0x72, 0x6c, 0x64, 0x20, 0x66, 0x6f, 0x6f]))
   \<and> wrapText [0x68, 0x65, 0x6c, 0x6c, 0x6f, 0x20, 0x77, 0x6f, 0x72, 0x6c, 0x64, 0x20, 0x66, 0x6f, 0x6f] 11
     = [[0x68, 0x65, 0x6c, 0x6c, 0x6f, 0x20, 0x77, 0x6f, 0x72, 0x6c, 0x64], [0x66, 0x6f, 0x6f]]"
proof -
  let ?s = "[0x68, 0x65, 0x6c, 0x6c, 0x6f, 0x20, 0x77, 0x6f, 0x72, 0x6c, 0x64, 0x20, 0x66, 0x6f, 0x6f]
    :: gostring"
  have "wrapText ?s 11 = concat (map (spec_paragraphLines 11) (Split ?s))"
    using wrapText_lines[of 11 ?s] by simp
  moreover have "wrapText ?s 11
     = [[0x68, 0x65, 0x6c, 0x6c, 0x6f, 0x20, 0x77, 0x6f, 0x72, 0x6c, 0x64], [0x66, 0x6f, 0x6f]]"
    by code_simp
  ultimately show ?thesis by simp
qed

text \<open>
  The text \<open>ab\<close> behind two spaces, wrapped to the width 3: the one line has four
  runes although the only word has two.
\<close>

theorem wrapText_indent_counterexample:
  "wrapText [0x20, 0x20, 0x61, 0x62] 3 = [[0x20, 0x20, 0x61, 0x62]]
   \<and> RuneCountInString [0x20, 0x20, 0x61, 0x62] = 4
   \<and> Fields [0x20, 0x20, 0x61, 0x62] = [[0x61, 0x62]]
   \<and> RuneCountInString [0x61, 0x62] = 2"
  by code_simp

subsection \<open>Fields\<close>

lemma FieldsFrom_append:
  "isSpace c \<Longrightarrow> FieldsFrom cur (s @ c # t) = FieldsFrom cur s @ FieldsFrom [] t"
  by (induction s arbitrary: cur) simp_all

lemma FieldsFrom_word:
  "\<forall>c \<in> set w. \<not> isSpace c \<Longrightarrow> FieldsFrom cur w = (if cur @ w = [] then [] else [cur @ w])"
  by (induction w arbitrary: cur) simp_all

lemma FieldsFrom_proper:
  "\<forall>c \<in> set cur. \<not> isSpace c \<Longrightarrow> w \<in> set (FieldsFrom cur s) \<Longrightarrow> properWord w"
proof (induction s arbitrary: cur)
  case Nil
  then show ?case by (auto simp: properWord_def split: if_splits)
next
  case (Cons c s)
  show ?case
  proof (cases "isSpace c")
    case True
    then have "w = cur \<and> cur \<noteq> [] \<or> w \<in> set (FieldsFrom [] s)"
      using Cons.prems(2) by (auto split: if_splits)
    then show ?thesis
    proof
      assume "w = cur \<and> cur \<noteq> []"
      then show ?thesis using Cons.prems(1) by (simp add: properWord_def)
    next
      assume "w \<in> set (FieldsFrom [] s)"
      then show ?thesis by (intro Cons.IH[of "[]"]) simp_all
    qed
  next
    case False
    then have "w \<in> set (FieldsFrom (cur @ [c]) s)" using Cons.prems(2) by simp
    then show ?thesis using Cons.prems(1) False by (intro Cons.IH[of "cur @ [c]"]) auto
  qed
qed

lemma Fields_proper: "w \<in> set (Fields s) \<Longrightarrow> properWord w"
  unfolding Fields_def by (rule FieldsFrom_proper[of "[]"]) simp_all

lemma Fields_word: "properWord w \<Longrightarrow> Fields w = [w]"
  by (simp add: Fields_def FieldsFrom_word properWord_def)

lemma Fields_lead_word:
  "\<forall>c \<in> set lead. c = 0x20 \<or> c = 0x09 \<Longrightarrow> properWord w \<Longrightarrow> Fields (lead @ w) = [w]"
  using FieldsFrom_blank[of lead w] Fields_word[of w] by (auto simp: Fields_def intro: isSpace_blank)

lemma Fields_lead:
  "\<forall>c \<in> set lead. c = 0x20 \<or> c = 0x09 \<Longrightarrow> Fields lead = []"
  using FieldsFrom_blank[of lead "[]"] by (auto simp: Fields_def intro: isSpace_blank)

lemma Fields_snoc_word:
  "properWord w \<Longrightarrow> Fields (cur @ 0x20 # w) = Fields cur @ [w]"
  using FieldsFrom_append[of "0x20" "[]" cur w] Fields_word[of w]
  by (simp add: Fields_def isSpace_def)

lemma Join_snoc: "fs \<noteq> [] \<Longrightarrow> Join (fs @ [w]) sep = Join fs sep @ sep @ w"
  by (induction fs sep rule: Join.induct) simp_all

subsection \<open>The lines of a paragraph\<close>

lemma greedyLines_fields:
  assumes "\<forall>c \<in> set lead. c = 0x20 \<or> c = 0x09" and "\<forall>w \<in> set ws. properWord w"
  shows "concat (map Fields (spec_greedyLines lead maxW cur ws)) = Fields cur @ ws"
  using assms(2)
proof (induction ws arbitrary: cur)
  case Nil
  show ?case by simp
next
  case (Cons w ws)
  have w: "properWord w" using Cons.prems by simp
  show ?case
    using Cons.IH[of "cur @ [0x20] @ w"] Cons.IH[of "lead @ w"] Cons.prems
      Fields_snoc_word[OF w, of cur] Fields_lead_word[OF assms(1) w]
    by simp
qed

lemma greedyLines_joined:
  assumes "\<forall>c \<in> set lead. c = 0x20 \<or> c = 0x09" and "\<forall>w \<in> set ws. properWord w"
    and "cur = lead @ Join (Fields cur) [0x20]" and "Fields cur \<noteq> []"
    and "l \<in> set (spec_greedyLines lead maxW cur ws)"
  shows "l = lead @ Join (Fields l) [0x20]"
  using assms(2-)
proof (induction ws arbitrary: cur)
  case Nil
  then show ?case by simp
next
  case (Cons w ws)
  have w: "properWord w" using Cons.prems by simp
  have fcur: "Fields (cur @ [0x20] @ w) = Fields cur @ [w]"
    by (simp add: Fields_snoc_word[OF w])
  have fit: "cur @ [0x20] @ w = lead @ Join (Fields (cur @ [0x20] @ w)) [0x20]"
  proof -
    have "lead @ Join (Fields (cur @ [0x20] @ w)) [0x20]
        = (lead @ Join (Fields cur) [0x20]) @ [0x20] @ w"
      unfolding fcur using Cons.prems(3) by (simp add: Join_snoc)
    also have "\<dots> = cur @ [0x20] @ w"
      using Cons.prems(2) by simp
    finally show ?thesis by simp
  qed
  have fnew: "Fields (lead @ w) = [w]"
    by (rule Fields_lead_word[OF assms(1) w])
  have new: "lead @ w = lead @ Join (Fields (lead @ w)) [0x20]"
    unfolding fnew by simp
  have ws: "\<forall>w \<in> set ws. properWord w" using Cons.prems(1) by simp
  show ?case
  proof (cases "RuneCountInString cur + 1 + RuneCountInString w \<le> maxW")
    case True
    then have l: "l \<in> set (spec_greedyLines lead maxW (cur @ [0x20] @ w) ws)"
      using Cons.prems(4) by simp
    show ?thesis
    proof (rule Cons.IH[of "cur @ [0x20] @ w"])
      show "\<forall>w \<in> set ws. properWord w" by (rule ws)
      show "cur @ [0x20] @ w = lead @ Join (Fields (cur @ [0x20] @ w)) [0x20]" by (rule fit)
      show "Fields (cur @ [0x20] @ w) \<noteq> []" unfolding fcur by simp
      show "l \<in> set (spec_greedyLines lead maxW (cur @ [0x20] @ w) ws)" by (rule l)
    qed
  next
    case False
    then have "l = cur \<or> l \<in> set (spec_greedyLines lead maxW (lead @ w) ws)"
      using Cons.prems(4) by simp
    then show ?thesis
    proof
      assume "l = cur"
      then show ?thesis using Cons.prems(2) by simp
    next
      assume l: "l \<in> set (spec_greedyLines lead maxW (lead @ w) ws)"
      show ?thesis
      proof (rule Cons.IH[of "lead @ w"])
        show "\<forall>w \<in> set ws. properWord w" by (rule ws)
        show "lead @ w = lead @ Join (Fields (lead @ w)) [0x20]" by (rule new)
        show "Fields (lead @ w) \<noteq> []" unfolding fnew by simp
        show "l \<in> set (spec_greedyLines lead maxW (lead @ w) ws)" by (rule l)
      qed
    qed
  qed
qed

lemma paragraphLines_fields:
  "concat (map Fields (spec_paragraphLines maxW p)) = Fields p"
proof (cases "Fields p")
  case Nil
  then show ?thesis
    using Fields_lead[OF leadingOf_blank[of p]] by (simp add: spec_paragraphLines_def)
next
  case (Cons w ws)
  have pw: "\<forall>v \<in> set (w # ws). properWord v"
    using Fields_proper[of _ p] Cons by auto
  then have "concat (map Fields (spec_greedyLines (spec_leadingOf p) maxW (spec_leadingOf p @ w) ws))
      = Fields (spec_leadingOf p @ w) @ ws"
    by (intro greedyLines_fields leadingOf_blank) simp
  then show ?thesis
    using Cons pw Fields_lead_word[OF leadingOf_blank[of p], of w] by (simp add: spec_paragraphLines_def)
qed

lemma paragraphLines_joined:
  assumes "l \<in> set (spec_paragraphLines maxW p)"
  shows "l = spec_leadingOf p @ Join (Fields l) [0x20]"
proof (cases "Fields p")
  case Nil
  then show ?thesis
    using assms Fields_lead[OF leadingOf_blank[of p]] by (simp add: spec_paragraphLines_def)
next
  case (Cons w ws)
  have pw: "\<forall>v \<in> set (w # ws). properWord v"
    using Fields_proper[of _ p] Cons by auto
  have f: "Fields (spec_leadingOf p @ w) = [w]"
    using pw Fields_lead_word[OF leadingOf_blank[of p], of w] by simp
  have l: "l \<in> set (spec_greedyLines (spec_leadingOf p) maxW (spec_leadingOf p @ w) ws)"
    using assms Cons by (simp add: spec_paragraphLines_def)
  show ?thesis
  proof (rule greedyLines_joined[where lead = "spec_leadingOf p" and ws = ws
        and cur = "spec_leadingOf p @ w" and maxW = maxW])
    show "\<forall>c \<in> set (spec_leadingOf p). c = 0x20 \<or> c = 0x09" by (rule leadingOf_blank)
    show "\<forall>w \<in> set ws. properWord w" using pw by simp
    show "spec_leadingOf p @ w = spec_leadingOf p @ Join (Fields (spec_leadingOf p @ w)) [0x20]"
      by (simp add: f)
    show "Fields (spec_leadingOf p @ w) \<noteq> []" by (simp add: f)
    show "l \<in> set (spec_greedyLines (spec_leadingOf p) maxW (spec_leadingOf p @ w) ws)" by (rule l)
  qed
qed

subsection \<open>Joining the lines again\<close>

lemma set_Join: "set (Join ws sep) \<subseteq> (\<Union>w \<in> set ws. set w) \<union> set sep"
  by (induction ws sep rule: Join.induct) auto

lemma newline_isSpace: "isSpace 0x0A"
  by (simp add: isSpace_def)

lemma space_isSpace: "isSpace 0x20"
  by (simp add: isSpace_def)

lemma paragraphLines_no_newline:
  assumes "l \<in> set (spec_paragraphLines maxW p)"
  shows "0x0A \<notin> set l"
proof
  assume nl: "0x0A \<in> set l"
  have l: "l = spec_leadingOf p @ Join (Fields l) [0x20]"
    using assms by (rule paragraphLines_joined)
  have "0x0A \<notin> set (spec_leadingOf p)" using leadingOf_blank[of p] by auto
  with nl l have "0x0A \<in> set (Join (Fields l) [0x20])"
    by (metis Un_iff set_append)
  with set_Join[of "Fields l" "[0x20]"] obtain w where "w \<in> set (Fields l)" "0x0A \<in> set w"
    by auto
  with Fields_proper[of w l] newline_isSpace show False
    by (auto simp: properWord_def)
qed

lemma Split_line: "0x0A \<notin> set l \<Longrightarrow> Split l = [l]"
  by (induction l) auto

lemma Split_append: "0x0A \<notin> set l \<Longrightarrow> Split (l @ 0x0A # r) = l # Split r"
  by (induction l) auto

lemma Split_Join:
  "ls \<noteq> [] \<Longrightarrow> \<forall>l \<in> set ls. 0x0A \<notin> set l \<Longrightarrow> Split (Join ls [0x0A]) = ls"
  by (induction ls "[0x0A::rune]" rule: Join.induct) (simp_all add: Split_line Split_append)

lemma Split_nonempty: "Split s \<noteq> []"
  by (induction s) (auto split: list.splits)

lemma greedyLines_nonempty: "spec_greedyLines lead maxW cur ws \<noteq> []"
  by (induction ws arbitrary: cur) simp_all

lemma paragraphLines_nonempty: "spec_paragraphLines maxW p \<noteq> []"
  by (simp add: spec_paragraphLines_def greedyLines_nonempty split: list.splits)

lemma length_concat_ge:
  "\<forall>x \<in> set xs. f x \<noteq> [] \<Longrightarrow> length xs \<le> length (concat (map f xs))"
proof (induction xs)
  case Nil
  show ?case by simp
next
  case (Cons x xs)
  have "1 \<le> length (f x)" using Cons.prems by (cases "f x") simp_all
  moreover have "length xs \<le> length (concat (map f xs))" using Cons by simp
  ultimately show ?case by simp
qed

lemma concat_map_id:
  "\<forall>x \<in> set xs. f x \<noteq> [] \<Longrightarrow> concat (map f xs) = xs \<Longrightarrow> \<forall>x \<in> set xs. f x = [x]"
proof (induction xs)
  case Nil
  show ?case by simp
next
  case (Cons x xs)
  have ne: "\<forall>x \<in> set xs. f x \<noteq> []" using Cons.prems(1) by simp
  have ge: "length xs \<le> length (concat (map f xs))"
    using ne by (rule length_concat_ge)
  have eq: "f x @ concat (map f xs) = x # xs" using Cons.prems(2) by simp
  have "length (f x @ concat (map f xs)) = length (x # xs)"
    by (simp only: eq)
  then have len: "length (f x) + length (concat (map f xs)) = Suc (length xs)"
    by simp
  have "f x \<noteq> []" using Cons.prems(1) by simp
  then have "1 \<le> length (f x)" by (cases "f x") simp_all
  with len ge have "length (f x) = 1" by linarith
  then obtain y where y: "f x = [y]" by (cases "f x") simp_all
  from eq have "y # concat (map f xs) = x # xs" unfolding y by simp
  then have yx: "y = x" and rest: "concat (map f xs) = xs" by simp_all
  have "\<forall>x \<in> set xs. f x = [x]" using ne rest by (rule Cons.IH)
  then show ?case using y yx by simp
qed

lemma adjacentSpaces_append:
  "adjacentSpaces (x @ y)
   = (adjacentSpaces x \<or> adjacentSpaces y \<or> (x \<noteq> [] \<and> y \<noteq> [] \<and> last x = 0x20 \<and> hd y = 0x20))"
proof (induction x rule: adjacentSpaces.induct)
  case 1
  show ?case by simp
next
  case (2 a)
  show ?case by (cases y) auto
next
  case (3 a b cs)
  then show ?case by auto
qed

lemma adjacentSpaces_none: "0x20 \<notin> set x \<Longrightarrow> \<not> adjacentSpaces x"
  by (induction x rule: adjacentSpaces.induct) auto

lemma Join_words_single_spaced:
  assumes "\<forall>w \<in> set ws. properWord w"
  shows "\<not> adjacentSpaces (Join ws [0x20])
    \<and> (ws \<noteq> [] \<longrightarrow> Join ws [0x20] \<noteq> [] \<and> hd (Join ws [0x20]) \<noteq> 0x20)"
  using assms
proof (induction ws "[0x20::rune]" rule: Join.induct)
  case 1
  show ?case by simp
next
  case (2 x)
  then have x: "x \<noteq> []" "0x20 \<notin> set x"
    using space_isSpace by (auto simp: properWord_def)
  then have "hd x \<noteq> 0x20" by (metis hd_in_set)
  with x show ?case by (simp add: adjacentSpaces_none)
next
  case (3 x y ys)
  then have x: "x \<noteq> []" "0x20 \<notin> set x"
    using space_isSpace by (auto simp: properWord_def)
  then have hx: "hd x \<noteq> 0x20" and lx: "last x \<noteq> 0x20"
    by (metis hd_in_set, metis last_in_set)
  let ?J = "Join (y # ys) [0x20]"
  have J: "\<not> adjacentSpaces ?J" "?J \<noteq> []" "hd ?J \<noteq> 0x20"
    using 3 by simp_all
  have "\<not> adjacentSpaces ([0x20] @ ?J)"
    unfolding adjacentSpaces_append using J by simp
  then have "\<not> adjacentSpaces (x @ [0x20] @ ?J)"
    unfolding adjacentSpaces_append[of x] using x lx by (simp add: adjacentSpaces_none)
  then show ?case using x hx by simp
qed

lemma wrapText_not_inverse:
  assumes "0 < maxW" and "interiorSpaces s"
  shows "Join (wrapText s maxW) [0x0A] \<noteq> s"
proof
  assume eq: "Join (wrapText s maxW) [0x0A] = s"
  let ?L = "wrapText s maxW"
  have L: "?L = concat (map (spec_paragraphLines maxW) (Split s))"
    using assms(1) by (rule wrapText_paragraphs)
  have ne: "?L \<noteq> []"
    unfolding L using Split_nonempty[of s] paragraphLines_nonempty
    by (cases "Split s") simp_all
  have nonl: "\<forall>l \<in> set ?L. 0x0A \<notin> set l"
    unfolding L using paragraphLines_no_newline by auto
  have "Split (Join ?L [0x0A]) = ?L" using ne nonl by (rule Split_Join)
  then have "concat (map (spec_paragraphLines maxW) (Split s)) = Split s"
    using eq L by simp
  then have one: "\<forall>p \<in> set (Split s). spec_paragraphLines maxW p = [p]"
    using paragraphLines_nonempty by (intro concat_map_id) simp_all
  from assms(2) obtain p where p: "p \<in> set (Split s)"
      and adj: "adjacentSpaces (TrimLeft p [0x20, 0x09])"
    by (auto simp: interiorSpaces_def)
  from one p have "p \<in> set (spec_paragraphLines maxW p)" by simp
  then have "p = spec_leadingOf p @ Join (Fields p) [0x20]" by (rule paragraphLines_joined)
  then have "spec_leadingOf p @ TrimLeft p [0x20, 0x09] = spec_leadingOf p @ Join (Fields p) [0x20]"
    using leading_trim[of p] by simp
  then have "TrimLeft p [0x20, 0x09] = Join (Fields p) [0x20]" by simp
  moreover have "\<not> adjacentSpaces (Join (Fields p) [0x20])"
    using Join_words_single_spaced[of "Fields p"] Fields_proper[of _ p] by blast
  ultimately show False using adj by simp
qed

text \<open>
  Claim C9. For every width above zero the lines that a paragraph gives hold the
  words of the paragraph, unchanged and in their order, and each line is the
  paragraph's indent followed by its words with one single space between two of
  them: whatever white space stood between two words has become one space or a
  line break. So a text in which some paragraph has two spaces next to each other
  after its indent is not what joining the lines with newlines gives.
\<close>

theorem wrapText_normalizes_whitespace:
  assumes "0 < maxW"
  shows "wrapText s maxW = concat (map (spec_paragraphLines maxW) (Split s))
    \<and> (\<forall>p \<in> set (Split s).
          concat (map Fields (spec_paragraphLines maxW p)) = Fields p
          \<and> (\<forall>l \<in> set (spec_paragraphLines maxW p). l = spec_leadingOf p @ Join (Fields l) [0x20]))
    \<and> (interiorSpaces s \<longrightarrow> Join (wrapText s maxW) [0x0A] \<noteq> s)"
proof (intro conjI ballI impI)
  show "wrapText s maxW = concat (map (spec_paragraphLines maxW) (Split s))"
    using assms by (rule wrapText_paragraphs)
next
  fix p
  show "concat (map Fields (spec_paragraphLines maxW p)) = Fields p"
    by (rule paragraphLines_fields)
next
  fix p l
  assume "l \<in> set (spec_paragraphLines maxW p)"
  then show "l = spec_leadingOf p @ Join (Fields l) [0x20]"
    by (rule paragraphLines_joined)
next
  assume "interiorSpaces s"
  with assms show "Join (wrapText s maxW) [0x0A] \<noteq> s"
    by (rule wrapText_not_inverse)
qed

theorem wrapText_normalizes_whitespace_witness:
  "(0::int) < 10 \<and> interiorSpaces [0x61, 0x20, 0x20, 0x62]
   \<and> wrapText [0x61, 0x20, 0x20, 0x62] 10 = [[0x61, 0x20, 0x62]]
   \<and> Join (wrapText [0x61, 0x20, 0x20, 0x62] 10) [0x0A] \<noteq> [0x61, 0x20, 0x20, 0x62]"
proof -
  have i: "interiorSpaces [0x61, 0x20, 0x20, 0x62]"
    by code_simp
  have w: "wrapText [0x61, 0x20, 0x20, 0x62] 10 = [[0x61, 0x20, 0x62]]"
    by code_simp
  have pos: "(0::int) < 10"
    by simp
  from wrapText_normalizes_whitespace[OF pos, of "[0x61, 0x20, 0x20, 0x62]"] i
  have "Join (wrapText [0x61, 0x20, 0x20, 0x62] 10) [0x0A] \<noteq> [0x61, 0x20, 0x20, 0x62]"
    by blast
  with i w show ?thesis by simp
qed

section \<open>Properties of the layout pass\<close>

subsection \<open>Arithmetic of 64-bit integers\<close>

lemma quot_nonneg: "0 \<le> a \<Longrightarrow> 0 < b \<Longrightarrow> quot a b = a div b"
  by (cases "a = 0") (simp_all add: quot_def)

lemma i64_id: "in64 k \<Longrightarrow> i64 k = k"
  by (simp add: i64_def in64_def)

lemma wrap_add_left:
  "((a + h) mod m - h + b + h) mod m = (a + b + h) mod (m::int)"
proof -
  have "(a + h) mod m - h + b + h = (a + h) mod m + b" by simp
  then have "((a + h) mod m - h + b + h) mod m = ((a + h) mod m + b) mod m" by simp
  also have "\<dots> = (a + h + b) mod m" by (rule mod_add_left_eq)
  also have "a + h + b = a + b + h" by simp
  finally show ?thesis .
qed

lemma i64_add_left: "i64 (i64 a + b) = i64 (a + b)"
  unfolding i64_def by (simp only: wrap_add_left)

lemma i64_diff_left: "i64 (i64 a - b) = i64 (a - b)"
  using i64_add_left[of a "- b"] by simp

lemma i64_0: "i64 0 = 0"
  by (simp add: i64_def)

subsection \<open>The sizes of the rectangles\<close>

lemma nonnegRects_shiftY: "nonnegRects ln \<Longrightarrow> nonnegRects (shiftY ln dy)"
  by (induction ln) simp

lemma nonnegRects_applySize: "nonnegRects ln \<Longrightarrow> nonnegRects (applySize n ln)"
  by (cases ln) (simp add: applySize_def Let_def)

lemma rowChildW_nonneg: "0 \<le> rowChildW avail remaining totalFlex x child"
  by (simp add: rowChildW_def Let_def)

lemma columnChildH_nonneg: "0 \<le> columnChildH avail False remaining totalFlex y child"
  by (simp add: columnChildH_def Let_def)

lemma nonnegRects_rowChildren:
  assumes "\<And>c a. c \<in> set cs \<Longrightarrow> 0 \<le> W a \<Longrightarrow> 0 \<le> H a \<Longrightarrow> nonnegRects (layout c a)"
    and "0 \<le> H avail"
    and "ln \<in> set (rowChildren avail remaining totalFlex x cs)"
  shows "nonnegRects ln"
  using assms
proof (induction cs arbitrary: x)
  case Nil
  then show ?case by simp
next
  case (Cons c cs)
  let ?w = "rowChildW avail remaining totalFlex x c"
  from Cons.prems(3)
  consider "ln = layout c \<lparr>X = x, Y = Y avail, W = ?w, H = H avail\<rparr>"
    | "ln \<in> set (rowChildren avail remaining totalFlex (i64 (x + ?w)) cs)"
    by (auto simp: Let_def simp del: layout.simps)
  then show ?case
  proof cases
    case 1
    then show ?thesis
      using Cons.prems(1)[of c] Cons.prems(2) rowChildW_nonneg by (simp del: layout.simps)
  next
    case 2
    then show ?thesis using Cons.prems(1,2) by (intro Cons.IH) auto
  qed
qed

lemma nonnegRects_columnChildren:
  assumes "\<And>c a. c \<in> set cs \<Longrightarrow> 0 \<le> W a \<Longrightarrow> 0 \<le> H a \<Longrightarrow> nonnegRects (layout c a)"
    and "0 \<le> W avail"
    and "ln \<in> set (fst (columnChildren avail False remaining totalFlex y cs))"
  shows "nonnegRects ln"
  using assms
proof (induction cs arbitrary: y)
  case Nil
  then show ?case by simp
next
  case (Cons c cs)
  let ?h = "columnChildH avail False remaining totalFlex y c"
  from Cons.prems(3)
  consider "ln = layout c \<lparr>X = X avail, Y = y, W = W avail, H = ?h\<rparr>"
    | "ln \<in> set (fst (columnChildren avail False remaining totalFlex (i64 (y + ?h)) cs))"
    by (auto simp: Let_def split: prod.splits simp del: layout.simps)
  then show ?case
  proof cases
    case 1
    then show ?thesis
      using Cons.prems(1)[of c] Cons.prems(2) columnChildH_nonneg by (simp del: layout.simps)
  next
    case 2
    then show ?thesis using Cons.prems(1,2) by (intro Cons.IH) auto
  qed
qed

text \<open>
  Where nothing scrolls, every size is clamped at zero after it is computed, so
  that no rectangle has a negative width or height, whatever the arithmetic did:
  the children of a Row, the inner rectangle of a Box and the children of a Column,
  List or Pane that does not scroll.
\<close>

lemma nonnegRects_layout_unscrolled:
  "unscrolled n \<Longrightarrow> 0 \<le> W avail \<Longrightarrow> 0 \<le> H avail \<Longrightarrow> nonnegRects (layout n avail)"
proof (induction n arbitrary: avail)
  case (Node t p cs)
  have ih: "\<And>c a. c \<in> set cs \<Longrightarrow> 0 \<le> W a \<Longrightarrow> 0 \<le> H a \<Longrightarrow> nonnegRects (layout c a)"
    using Node.IH Node.prems(1) by simp
  have col: "nonnegRects (dispatch (Node t p cs) avail)"
    if t: "t = ColumnNode \<or> t = ListNode \<or> t = PaneNode"
  proof (cases "cs = []")
    case True
    then show ?thesis using t Node.prems by auto
  next
    case False
    have ns: "(ScrollOffset p > 0 \<or> ScrollToBottom p) = False"
      using Node.prems(1) t by auto
    obtain totalFixed totalFlex where fp: "firstPass measureHeight cs avail = (totalFixed, totalFlex)"
      by (cases "firstPass measureHeight cs avail")
    define remaining where
      "remaining = (if i64 (H avail - totalFixed) < 0 then 0 else i64 (H avail - totalFixed))"
    obtain children y where cc:
      "columnChildren avail False remaining totalFlex (Y avail) cs = (children, y)"
      by (cases "columnChildren avail False remaining totalFlex (Y avail) cs")
    have ch: "\<And>ln. ln \<in> set children \<Longrightarrow> nonnegRects ln"
      using nonnegRects_columnChildren[OF ih Node.prems(2), of cs _ remaining totalFlex "Y avail"] cc
      by simp
    have "dispatch (Node t p cs) avail =
       LayoutNode (Node t p cs) avail
         (if columnScroll (Node t p cs) avail y > 0
          then map (\<lambda>c. shiftY c (i64 (- columnScroll (Node t p cs) avail y))) children
          else children)"
      using t False fp cc ns by (auto simp: Let_def remaining_def)
    then show ?thesis using ch Node.prems by (auto intro: nonnegRects_shiftY)
  qed
  have "nonnegRects (dispatch (Node t p cs) avail)"
  proof (cases t)
    case TextNode
    then show ?thesis using Node.prems by (simp add: layoutText_def Let_def)
  next
    case BoxNode
    then show ?thesis using Node.prems ih by (cases cs) (auto simp: Let_def simp del: layout.simps)
  next
    case RowNode
    show ?thesis
    proof (cases "cs = []")
      case True
      then show ?thesis using RowNode Node.prems by simp
    next
      case False
      then show ?thesis using RowNode Node.prems
        by (auto simp: Let_def split: prod.splits
            intro: nonnegRects_rowChildren[OF ih Node.prems(3)])
    qed
  next
    case SpacerNode
    then show ?thesis using Node.prems by simp
  qed (use col in simp_all)
  then show ?case by (simp add: nonnegRects_applySize del: dispatch.simps)
qed

text \<open>
  Claim C6 says that for every node tree and every viewport every rectangle of the
  tree that \<^verbatim>\<open>Layout\<close> returns has a width and a height of at least zero. A column
  pinned to the bottom that holds one text of the flex weight \<open>2 ^ 62\<close>, in a
  viewport of 5 by 3: all three rows remain, the product \<open>remaining * fw\<close> is
  \<open>3 * 2 ^ 62\<close> and wraps to \<open>- (2 ^ 62)\<close>, its quotient by the total weight is \<open>-1\<close>,
  and a scrollable column leaves out the clamp at zero that every other path has, so
  that the rectangle of the text has the height \<open>-1\<close>.
\<close>

theorem Layout_scrollable_negative_height:
  "Layout (WithScrollToBottom (Column [WithFlex (Text_node [0x78]) (2 ^ 62)])) 5 3
   = LayoutNode (WithScrollToBottom (Column [WithFlex (Text_node [0x78]) (2 ^ 62)]))
       \<lparr>X = 0, Y = 0, W = 5, H = 3\<rparr>
       [LayoutNode (WithFlex (Text_node [0x78]) (2 ^ 62)) \<lparr>X = 0, Y = 0, W = 5, H = - 1\<rparr> []]"
  by code_simp

subsection \<open>Explicit sizes shrink, never grow\<close>

text \<open>
  Claim C7. For every node and every available rectangle, the width (height) of the
  rectangle that \<^verbatim>\<open>layout\<close> returns is the minimum of the computed width (height),
  the one the dispatch on the node kind produced, and the explicit one when the
  explicit one is positive, and is the computed one when the explicit one is 0.
\<close>

theorem layout_explicit_size:
  "(Width (Props n) > 0 \<longrightarrow>
      W (LRect (layout n avail)) = min (W (LRect (dispatch n avail))) (Width (Props n)))
   \<and> (Width (Props n) = 0 \<longrightarrow> W (LRect (layout n avail)) = W (LRect (dispatch n avail)))
   \<and> (Height (Props n) > 0 \<longrightarrow>
      H (LRect (layout n avail)) = min (H (LRect (dispatch n avail))) (Height (Props n)))
   \<and> (Height (Props n) = 0 \<longrightarrow> H (LRect (layout n avail)) = H (LRect (dispatch n avail)))"
  by (cases n) (simp add: applySize_def Let_def min_def del: dispatch.simps)

theorem layout_explicit_size_witness:
  "W (LRect (layout (WithSize (Text_node [0x68, 0x69]) 10 1) \<lparr>X = 0, Y = 0, W = 80, H = 24\<rparr>))
     = min (W (LRect (dispatch (WithSize (Text_node [0x68, 0x69]) 10 1)
                        \<lparr>X = 0, Y = 0, W = 80, H = 24\<rparr>))) 10
   \<and> W (LRect (layout (WithSize (Text_node [0x68, 0x69]) 10 1) \<lparr>X = 0, Y = 0, W = 80, H = 24\<rparr>))
     = 10"
proof -
  let ?n = "WithSize (Text_node [0x68, 0x69]) 10 1"
  let ?a = "\<lparr>X = 0, Y = 0, W = 80, H = 24\<rparr>"
  have w: "Width (Props ?n) = 10"
    by (simp add: WithSize_def Text_node_def)
  have d: "W (LRect (dispatch ?n ?a)) = 80"
    by (simp add: WithSize_def Text_node_def layoutText_def Let_def)
  from layout_explicit_size[of ?n ?a] w
  have "W (LRect (layout ?n ?a)) = min (W (LRect (dispatch ?n ?a))) 10"
    by simp
  then show ?thesis using d by simp
qed

subsection \<open>The positioned tree has the shape of the node tree\<close>

lemma LNode_applySize: "LNode (applySize n ln) = LNode ln"
  by (simp add: applySize_def Let_def)

lemma LChildren_applySize: "LChildren (applySize n ln) = LChildren ln"
  by (simp add: applySize_def Let_def)

lemma LNode_dispatch: "LNode (dispatch n avail) = n"
  by (cases n) (auto simp: layoutText_def Let_def split: NodeType.splits list.splits prod.splits)

lemma LNode_layout: "LNode (layout n avail) = n"
  by (cases n) (simp add: LNode_applySize LNode_dispatch del: dispatch.simps)

lemma LNode_shiftY: "LNode (shiftY c dy) = LNode c"
  by (cases c) simp

lemma LNode_rowChildren: "map LNode (rowChildren avail remaining totalFlex x cs) = cs"
  by (induction cs arbitrary: x) (simp_all add: Let_def LNode_layout del: layout.simps)

lemma LNode_columnChildren:
  "map LNode (fst (columnChildren avail scrollable remaining totalFlex y cs)) = cs"
proof (induction cs arbitrary: y)
  case Nil
  show ?case by simp
next
  case (Cons c cs)
  let ?h = "columnChildH avail scrollable remaining totalFlex y c"
  obtain children y' where cc:
    "columnChildren avail scrollable remaining totalFlex (i64 (y + ?h)) cs = (children, y')"
    by (cases "columnChildren avail scrollable remaining totalFlex (i64 (y + ?h)) cs")
  from Cons.IH[of "i64 (y + ?h)"] cc have "map LNode children = cs" by simp
  then show ?case by (simp add: Let_def cc LNode_layout del: layout.simps)
qed

lemma LChildren_layout: "LChildren (layout n avail) = LChildren (dispatch n avail)"
  by (cases n) (simp add: LChildren_applySize del: dispatch.simps)

text \<open>What \<^verbatim>\<open>layoutColumn\<close> returns for a node with children.\<close>

lemma dispatch_column:
  assumes "t = ColumnNode \<or> t = ListNode \<or> t = PaneNode" and "cs \<noteq> []"
  shows "\<exists>scrollable remaining totalFlex children y.
      columnChildren avail scrollable remaining totalFlex (Y avail) cs = (children, y)
      \<and> dispatch (Node t p cs) avail
        = LayoutNode (Node t p cs) avail
            (if columnScroll (Node t p cs) avail y > 0
             then map (\<lambda>c. shiftY c (i64 (- columnScroll (Node t p cs) avail y))) children
             else children)"
proof -
  obtain totalFixed totalFlex where fp: "firstPass measureHeight cs avail = (totalFixed, totalFlex)"
    by (cases "firstPass measureHeight cs avail")
  define remaining where
    "remaining = (if i64 (H avail - totalFixed) < 0 then 0 else i64 (H avail - totalFixed))"
  define scrollable where "scrollable = (ScrollOffset p > 0 \<or> ScrollToBottom p)"
  obtain children y where cc:
    "columnChildren avail scrollable remaining totalFlex (Y avail) cs = (children, y)"
    by (cases "columnChildren avail scrollable remaining totalFlex (Y avail) cs")
  have "dispatch (Node t p cs) avail
        = LayoutNode (Node t p cs) avail
            (if columnScroll (Node t p cs) avail y > 0
             then map (\<lambda>c. shiftY c (i64 (- columnScroll (Node t p cs) avail y))) children
             else children)"
    using assms fp cc by (auto simp: Let_def remaining_def scrollable_def)
  with cc show ?thesis by blast
qed

lemma shape_applySize: "shapeOfLayout (applySize n ln) = shapeOfLayout ln"
  by (cases ln) (simp add: applySize_def Let_def)

lemma shape_shiftY: "shapeOfLayout (shiftY ln dy) = shapeOfLayout ln"
  by (induction ln) simp

lemma shape_rowChildren:
  assumes "\<And>c a. c \<in> set cs \<Longrightarrow> shapeOfLayout (layout c a) = shapeOfNode c"
  shows "map shapeOfLayout (rowChildren avail remaining totalFlex x cs) = map shapeOfNode cs"
  using assms by (induction cs arbitrary: x) (simp_all add: Let_def del: layout.simps)

lemma shape_columnChildren:
  assumes "\<And>c a. c \<in> set cs \<Longrightarrow> shapeOfLayout (layout c a) = shapeOfNode c"
  shows "map shapeOfLayout (fst (columnChildren avail scrollable remaining totalFlex y cs))
     = map shapeOfNode cs"
  using assms
proof (induction cs arbitrary: y)
  case Nil
  show ?case by simp
next
  case (Cons c cs)
  let ?h = "columnChildH avail scrollable remaining totalFlex y c"
  obtain children y' where cc:
    "columnChildren avail scrollable remaining totalFlex (i64 (y + ?h)) cs = (children, y')"
    by (cases "columnChildren avail scrollable remaining totalFlex (i64 (y + ?h)) cs")
  from Cons.IH[of "i64 (y + ?h)"] Cons.prems cc
  have "map shapeOfLayout children = map shapeOfNode cs" by simp
  then show ?case using Cons.prems by (simp add: Let_def cc del: layout.simps)
qed

lemma shape_layout: "shapeOfLayout (layout n avail) = shapeOfNode n"
proof (induction n arbitrary: avail)
  case (Node t p cs)
  have ih: "\<And>c a. c \<in> set cs \<Longrightarrow> shapeOfLayout (layout c a) = shapeOfNode c"
    using Node.IH by blast
  have col: "shapeOfLayout (dispatch (Node t p cs) avail) = Shape (Node t p cs) (map shapeOfNode cs)"
    if t: "t = ColumnNode \<or> t = ListNode \<or> t = PaneNode"
  proof (cases "cs = []")
    case True
    then show ?thesis using t by auto
  next
    case False
    from dispatch_column[OF t False, of avail p]
    obtain scrollable remaining totalFlex children y where
      cc: "columnChildren avail scrollable remaining totalFlex (Y avail) cs = (children, y)"
      and d: "dispatch (Node t p cs) avail
        = LayoutNode (Node t p cs) avail
            (if columnScroll (Node t p cs) avail y > 0
             then map (\<lambda>c. shiftY c (i64 (- columnScroll (Node t p cs) avail y))) children
             else children)"
      by blast
    have "map shapeOfLayout children = map shapeOfNode cs"
      using shape_columnChildren[OF ih, of cs avail scrollable remaining totalFlex "Y avail"] cc
      by simp
    then show ?thesis unfolding d by (simp add: comp_def shape_shiftY)
  qed
  have "shapeOfLayout (dispatch (Node t p cs) avail) = shapeOfNode (Node t p cs)"
  proof (cases t)
    case TextNode
    then show ?thesis by (simp add: layoutText_def Let_def)
  next
    case BoxNode
    then show ?thesis using ih by (cases cs) (simp_all add: Let_def del: layout.simps)
  next
    case RowNode
    then show ?thesis
      using shape_rowChildren[OF ih, of cs]
      by (cases "cs = []") (auto simp: Let_def split: prod.splits)
  next
    case SpacerNode
    then show ?thesis by simp
  qed (use col in simp_all)
  then show ?case by (simp add: shape_applySize del: dispatch.simps shapeOfNode.simps)
qed

lemma rowChildren_results:
  "\<exists>rects. length rects = length cs
     \<and> rowChildren avail remaining totalFlex x cs = map2 layout cs rects"
proof (induction cs arbitrary: x)
  case Nil
  show ?case by simp
next
  case (Cons c cs)
  let ?w = "rowChildW avail remaining totalFlex x c"
  from Cons.IH[of "i64 (x + ?w)"] obtain rects where
    r: "length rects = length cs"
      "rowChildren avail remaining totalFlex (i64 (x + ?w)) cs = map2 layout cs rects"
    by blast
  have "length (\<lparr>X = x, Y = Y avail, W = ?w, H = H avail\<rparr> # rects) = length (c # cs)"
    using r by simp
  moreover have "rowChildren avail remaining totalFlex x (c # cs)
      = map2 layout (c # cs) (\<lparr>X = x, Y = Y avail, W = ?w, H = H avail\<rparr> # rects)"
    using r by (simp add: Let_def del: layout.simps)
  ultimately show ?case by blast
qed

lemma columnChildren_results:
  "\<exists>rects. length rects = length cs
     \<and> fst (columnChildren avail scrollable remaining totalFlex y cs) = map2 layout cs rects"
proof (induction cs arbitrary: y)
  case Nil
  show ?case by simp
next
  case (Cons c cs)
  let ?h = "columnChildH avail scrollable remaining totalFlex y c"
  obtain children y' where cc:
    "columnChildren avail scrollable remaining totalFlex (i64 (y + ?h)) cs = (children, y')"
    by (cases "columnChildren avail scrollable remaining totalFlex (i64 (y + ?h)) cs")
  from Cons.IH[of "i64 (y + ?h)"] cc obtain rects where
    r: "length rects = length cs" "children = map2 layout cs rects"
    by auto
  have "length (\<lparr>X = X avail, Y = y, W = W avail, H = ?h\<rparr> # rects) = length (c # cs)"
    using r by simp
  moreover have "fst (columnChildren avail scrollable remaining totalFlex y (c # cs))
      = map2 layout (c # cs) (\<lparr>X = X avail, Y = y, W = W avail, H = ?h\<rparr> # rects)"
    using r cc by (simp add: Let_def del: layout.simps)
  ultimately show ?case by blast
qed

lemma row_layout_results:
  "\<exists>rects. length rects = length cs
     \<and> LChildren (layout (Node RowNode p cs) avail) = map2 layout cs rects"
proof (cases "cs = []")
  case True
  then show ?thesis unfolding LChildren_layout by simp
next
  case False
  obtain totalFixed totalFlex where fp: "firstPass measureWidth cs avail = (totalFixed, totalFlex)"
    by (cases "firstPass measureWidth cs avail")
  let ?r = "if i64 (W avail - totalFixed) < 0 then 0 else i64 (W avail - totalFixed)"
  have "LChildren (layout (Node RowNode p cs) avail) = rowChildren avail ?r totalFlex (X avail) cs"
    unfolding LChildren_layout using False fp by (simp add: Let_def)
  then show ?thesis using rowChildren_results[of cs avail ?r totalFlex "X avail"] by simp
qed

lemma column_layout_results:
  assumes t: "t = ColumnNode \<or> t = ListNode \<or> t = PaneNode"
  shows "\<exists>rects. length rects = length cs
     \<and> (LChildren (layout (Node t p cs) avail) = map2 layout cs rects
        \<or> (\<exists>dy. LChildren (layout (Node t p cs) avail)
              = map2 (\<lambda>c r. shiftY (layout c r) dy) cs rects))"
proof (cases "cs = []")
  case True
  then show ?thesis unfolding LChildren_layout using t by auto
next
  case False
  from dispatch_column[OF t False, of avail p]
  obtain scrollable remaining totalFlex children y where
    cc: "columnChildren avail scrollable remaining totalFlex (Y avail) cs = (children, y)"
    and d: "dispatch (Node t p cs) avail
      = LayoutNode (Node t p cs) avail
          (if columnScroll (Node t p cs) avail y > 0
           then map (\<lambda>c. shiftY c (i64 (- columnScroll (Node t p cs) avail y))) children
           else children)"
    by blast
  from columnChildren_results[of cs avail scrollable remaining totalFlex "Y avail"] cc
  obtain rects where r: "length rects = length cs" "children = map2 layout cs rects"
    by auto
  let ?dy = "i64 (- columnScroll (Node t p cs) avail y)"
  have m: "map (\<lambda>c. shiftY c ?dy) (map2 layout cs rects)
      = map2 (\<lambda>c r. shiftY (layout c r) ?dy) cs rects"
    by (simp add: case_prod_unfold del: layout.simps)
  show ?thesis
  proof (cases "columnScroll (Node t p cs) avail y > 0")
    case True
    then have "LChildren (layout (Node t p cs) avail)
        = map2 (\<lambda>c r. shiftY (layout c r) ?dy) cs rects"
      unfolding LChildren_layout d using r m by simp
    with r show ?thesis by blast
  next
    case False
    then have "LChildren (layout (Node t p cs) avail) = map2 layout cs rects"
      unfolding LChildren_layout d using r by simp
    with r show ?thesis by blast
  qed
qed

lemma box_layout_results:
  assumes "cs \<noteq> []"
  shows "\<exists>r. LChildren (layout (Node BoxNode p cs) avail) = [layout (hd cs) r]"
proof -
  obtain c rest where cs: "cs = c # rest" using assms by (cases cs) auto
  define inner where
    "inner = \<lparr>X = i64 (X avail + 1), Y = i64 (Y avail + 1),
               W = (if i64 (W avail - 2) < 0 then 0 else i64 (W avail - 2)),
               H = (if i64 (H avail - 2) < 0 then 0 else i64 (H avail - 2))\<rparr>"
  have "LChildren (dispatch (Node BoxNode p cs) avail) = [layout c inner]"
    unfolding cs inner_def by (simp add: Let_def del: layout.simps)
  then show ?thesis unfolding LChildren_layout cs by auto
qed

text \<open>
  Claim C10. \<^verbatim>\<open>layout\<close> preserves the structure of the tree, at every depth: the
  positioned tree has the shape of the node tree, in which a Row, Column, List or
  Pane has one positioned child for each child of the node, in the same order (none
  when the node has none), and a Box with at least one child has exactly one
  positioned child, that of the first child of the node. Each positioned child is
  what \<^verbatim>\<open>layout\<close> returns for that child in some rectangle, moved up by the scroll
  offset in a column that scrolls.
\<close>

theorem layout_children_shape:
  "shapeOfLayout (layout n avail) = shapeOfNode n
   \<and> (Type n \<in> {RowNode, ColumnNode, ListNode, PaneNode} \<longrightarrow>
      map LNode (LChildren (layout n avail)) = Children n
      \<and> (\<exists>rects. length rects = length (Children n)
           \<and> (LChildren (layout n avail) = map2 layout (Children n) rects
              \<or> (\<exists>dy. LChildren (layout n avail)
                    = map2 (\<lambda>c r. shiftY (layout c r) dy) (Children n) rects))))
   \<and> (Type n = BoxNode \<and> Children n \<noteq> [] \<longrightarrow>
      map LNode (LChildren (layout n avail)) = [hd (Children n)]
      \<and> (\<exists>r. LChildren (layout n avail) = [layout (hd (Children n)) r]))"
proof (cases n)
  case (Node t p cs)
  have row: "map LNode (LChildren (dispatch (Node RowNode p cs) avail)) = cs"
    by (cases "cs = []") (auto simp: Let_def LNode_rowChildren split: prod.splits)
  have col: "map LNode (LChildren (dispatch (Node t p cs) avail)) = cs"
    if t: "t = ColumnNode \<or> t = ListNode \<or> t = PaneNode"
  proof (cases "cs = []")
    case True
    then show ?thesis using t by auto
  next
    case False
    from dispatch_column[OF t False, of avail p]
    obtain scrollable remaining totalFlex children y where
      cc: "columnChildren avail scrollable remaining totalFlex (Y avail) cs = (children, y)"
      and d: "dispatch (Node t p cs) avail
        = LayoutNode (Node t p cs) avail
            (if columnScroll (Node t p cs) avail y > 0
             then map (\<lambda>c. shiftY c (i64 (- columnScroll (Node t p cs) avail y))) children
             else children)"
      by blast
    have ch: "map LNode children = cs"
      using LNode_columnChildren[of avail scrollable remaining totalFlex "Y avail" cs] cc by simp
    show ?thesis unfolding d using ch by (simp add: comp_def LNode_shiftY)
  qed
  have box: "map LNode (LChildren (dispatch (Node BoxNode p cs) avail)) = [hd cs]" if "cs \<noteq> []"
    using that by (cases cs) (simp_all add: Let_def LNode_layout del: layout.simps)
  have rowres: "\<exists>rects. length rects = length cs
       \<and> (LChildren (layout (Node RowNode p cs) avail) = map2 layout cs rects
          \<or> (\<exists>dy. LChildren (layout (Node RowNode p cs) avail)
                = map2 (\<lambda>c r. shiftY (layout c r) dy) cs rects))"
    using row_layout_results[of cs p avail] by blast
  show ?thesis
  proof (intro conjI impI)
    show "shapeOfLayout (layout n avail) = shapeOfNode n" by (rule shape_layout)
  next
    assume "Type n \<in> {RowNode, ColumnNode, ListNode, PaneNode}"
    then show "map LNode (LChildren (layout n avail)) = Children n"
      unfolding LChildren_layout using Node row col by auto
  next
    assume "Type n \<in> {RowNode, ColumnNode, ListNode, PaneNode}"
    then consider "t = RowNode" | "t = ColumnNode \<or> t = ListNode \<or> t = PaneNode"
      using Node by auto
    then show "\<exists>rects. length rects = length (Children n)
           \<and> (LChildren (layout n avail) = map2 layout (Children n) rects
              \<or> (\<exists>dy. LChildren (layout n avail)
                    = map2 (\<lambda>c r. shiftY (layout c r) dy) (Children n) rects))"
    proof cases
      case 1
      then show ?thesis using rowres Node by simp
    next
      case 2
      then show ?thesis using column_layout_results[OF 2, of cs p avail] Node by simp
    qed
  next
    assume "Type n = BoxNode \<and> Children n \<noteq> []"
    then show "map LNode (LChildren (layout n avail)) = [hd (Children n)]"
      unfolding LChildren_layout using Node box by auto
  next
    assume "Type n = BoxNode \<and> Children n \<noteq> []"
    then show "\<exists>r. LChildren (layout n avail) = [layout (hd (Children n)) r]"
      using Node box_layout_results[of cs p avail] by simp
  qed
qed

theorem layout_children_shape_witness:
  "Type (Row [Text_node [0x61], Spacer]) \<in> {RowNode, ColumnNode, ListNode, PaneNode}
   \<and> map LNode (LChildren (layout (Row [Text_node [0x61], Spacer]) \<lparr>X = 0, Y = 0, W = 9, H = 1\<rparr>))
     = [Text_node [0x61], Spacer]
   \<and> Type (Box BorderSingle Spacer) = BoxNode \<and> Children (Box BorderSingle Spacer) \<noteq> []
   \<and> map LNode (LChildren (layout (Box BorderSingle Spacer) \<lparr>X = 0, Y = 0, W = 9, H = 1\<rparr>))
     = [Spacer]
   \<and> shapeOfLayout (layout (Column [Row [Text_node [0x61]]]) \<lparr>X = 0, Y = 0, W = 9, H = 1\<rparr>)
     = Shape (Column [Row [Text_node [0x61]]])
         [Shape (Row [Text_node [0x61]]) [Shape (Text_node [0x61]) []]]"
proof -
  let ?a = "\<lparr>X = 0, Y = 0, W = 9, H = 1\<rparr>"
  have r: "Type (Row [Text_node [0x61], Spacer]) \<in> {RowNode, ColumnNode, ListNode, PaneNode}"
    by (simp add: Row_def)
  have b: "Type (Box BorderSingle Spacer) = BoxNode \<and> Children (Box BorderSingle Spacer) \<noteq> []"
    by (simp add: Box_def)
  have 1: "map LNode (LChildren (layout (Row [Text_node [0x61], Spacer]) ?a))
      = Children (Row [Text_node [0x61], Spacer])"
    using layout_children_shape[of "Row [Text_node [0x61], Spacer]" ?a] r by blast
  have 2: "map LNode (LChildren (layout (Box BorderSingle Spacer) ?a))
      = [hd (Children (Box BorderSingle Spacer))]"
    using layout_children_shape[of "Box BorderSingle Spacer" ?a] b by blast
  have 3: "shapeOfLayout (layout (Column [Row [Text_node [0x61]]]) ?a)
      = shapeOfNode (Column [Row [Text_node [0x61]]])"
    using layout_children_shape[of "Column [Row [Text_node [0x61]]]" ?a] by blast
  have c1: "Children (Row [Text_node [0x61], Spacer]) = [Text_node [0x61], Spacer]"
    by (simp add: Row_def)
  have c2: "hd (Children (Box BorderSingle Spacer)) = Spacer"
    by (simp add: Box_def)
  have c3: "shapeOfNode (Column [Row [Text_node [0x61]]])
      = Shape (Column [Row [Text_node [0x61]]])
          [Shape (Row [Text_node [0x61]]) [Shape (Text_node [0x61]) []]]"
    by (simp add: Column_def Row_def Text_node_def)
  show ?thesis using r b 1 2 3 c1 c2 c3 by (simp del: layout.simps)
qed

subsection \<open>The widths of the children of a row\<close>

lemma firstPass_foldl:
  "foldl (\<lambda>(totalFixed, totalFlex) child.
              (let fw = flexWeight child in
               if fw > 0 then (totalFixed, i64 (totalFlex + fw))
               else (i64 (totalFixed + measureWidth child avail), totalFlex)))
           (i64 a, i64 b) cs
   = (i64 (a + spec_intrinsicTotal cs avail), i64 (b + spec_flexTotal cs))"
proof (induction cs arbitrary: a b)
  case Nil
  show ?case by (simp add: spec_intrinsicTotal_def spec_flexTotal_def)
next
  case (Cons c cs)
  show ?case
  proof (cases "flexWeight c > 0")
    case True
    then show ?thesis
      using Cons.IH[of a "b + flexWeight c"]
      by (simp add: i64_add_left spec_intrinsicTotal_def spec_flexTotal_def add.assoc)
  next
    case False
    then show ?thesis
      using Cons.IH[of "a + measureWidth c avail" b]
      by (simp add: i64_add_left spec_intrinsicTotal_def spec_flexTotal_def add.assoc)
  qed
qed

lemma firstPass_width:
  "firstPass measureWidth cs avail = (i64 (spec_intrinsicTotal cs avail), i64 (spec_flexTotal cs))"
  using firstPass_foldl[of avail 0 0 cs] by (simp add: firstPass_def i64_0)

lemma flexTotal_nonneg: "0 \<le> spec_flexTotal cs"
  unfolding spec_flexTotal_def by (rule sum_list_nonneg) auto

lemma intrinsicTotal_nonneg:
  "\<forall>c \<in> set cs. \<not> flexWeight c > 0 \<longrightarrow> 0 \<le> measureWidth c avail
   \<Longrightarrow> 0 \<le> spec_intrinsicTotal cs avail"
  unfolding spec_intrinsicTotal_def by (rule sum_list_nonneg) auto

lemma flexTotal_ge:
  "c \<in> set cs \<Longrightarrow> flexWeight c > 0 \<Longrightarrow> flexWeight c \<le> spec_flexTotal cs"
proof (induction cs)
  case Nil
  then show ?case by simp
next
  case (Cons d cs)
  have nn: "0 \<le> spec_flexTotal cs" by (rule flexTotal_nonneg)
  show ?case
  proof (cases "c = d")
    case True
    then show ?thesis using Cons.prems nn by (simp add: spec_flexTotal_def)
  next
    case False
    then have "flexWeight c \<le> spec_flexTotal cs" using Cons by simp
    then show ?thesis by (cases "flexWeight d > 0") (simp_all add: spec_flexTotal_def)
  qed
qed

lemma div_mult_le_int: "0 < (t::int) \<Longrightarrow> a div t * t \<le> a"
proof -
  assume t: "0 < t"
  have "a = a div t * t + a mod t" by simp
  moreover have "0 \<le> a mod t" using t by simp
  ultimately show ?thesis by linarith
qed

lemma flex_shares_sum:
  assumes "0 < (t::int)"
  shows "(\<Sum>w\<leftarrow>ws. (r * w) div t) * t \<le> r * sum_list ws"
proof (induction ws)
  case Nil
  show ?case by simp
next
  case (Cons w ws)
  have "(r * w) div t * t \<le> r * w" using assms by (rule div_mult_le_int)
  with Cons show ?case by (simp add: algebra_simps)
qed

lemma rowShare_nonneg:
  assumes "\<not> flexWeight c > 0 \<longrightarrow> 0 \<le> measureWidth c avail"
  shows "0 \<le> spec_rowShare cs avail c"
proof (cases "flexWeight c > 0")
  case True
  have t: "0 \<le> spec_flexTotal cs" by (rule flexTotal_nonneg)
  have "0 \<le> max 0 (W avail - spec_intrinsicTotal cs avail) * flexWeight c"
    using True by (intro mult_nonneg_nonneg) simp_all
  then have "0 \<le> (max 0 (W avail - spec_intrinsicTotal cs avail) * flexWeight c) div spec_flexTotal cs"
    using t by (cases "spec_flexTotal cs = 0") (simp_all add: pos_imp_zdiv_nonneg_iff)
  then show ?thesis using True by (simp add: spec_rowShare_def)
next
  case False
  then show ?thesis using assms by (simp add: spec_rowShare_def)
qed

lemma sum_rowShare_nonneg:
  assumes "\<forall>c \<in> set ds. \<not> flexWeight c > 0 \<longrightarrow> 0 \<le> measureWidth c avail"
  shows "0 \<le> sum_list (map (spec_rowShare cs avail) ds)"
  using assms by (intro sum_list_nonneg) (auto intro: rowShare_nonneg)

lemma sum_rowShare_split:
  "sum_list (map (spec_rowShare cs avail) ds)
   = sum_list (map (\<lambda>c. measureWidth c avail) (filter (\<lambda>c. \<not> flexWeight c > 0) ds))
     + (\<Sum>w\<leftarrow>map flexWeight (filter (\<lambda>c. flexWeight c > 0) ds).
          (max 0 (W avail - spec_intrinsicTotal cs avail) * w) div spec_flexTotal cs)"
  by (induction ds) (simp_all add: spec_rowShare_def)

lemma sum_rowShare_le:
  assumes "spec_intrinsicTotal cs avail \<le> W avail"
  shows "sum_list (map (spec_rowShare cs avail) cs) \<le> W avail"
proof -
  let ?r = "max 0 (W avail - spec_intrinsicTotal cs avail)"
  let ?ws = "map flexWeight (filter (\<lambda>c. flexWeight c > 0) cs)"
  have r: "?r = W avail - spec_intrinsicTotal cs avail" using assms by simp
  have fl: "(\<Sum>w\<leftarrow>?ws. (?r * w) div spec_flexTotal cs) \<le> ?r"
  proof (cases "0 < spec_flexTotal cs")
    case True
    have "(\<Sum>w\<leftarrow>?ws. (?r * w) div spec_flexTotal cs) * spec_flexTotal cs \<le> ?r * spec_flexTotal cs"
      using flex_shares_sum[OF True, of ?r ?ws] by (simp add: spec_flexTotal_def)
    then show ?thesis using True by simp
  next
    case False
    have "0 \<le> spec_flexTotal cs" by (rule flexTotal_nonneg)
    with False have z: "spec_flexTotal cs = 0" by simp
    show ?thesis by (simp add: z comp_def)
  qed
  have "sum_list (map (spec_rowShare cs avail) cs)
        = spec_intrinsicTotal cs avail + (\<Sum>w\<leftarrow>?ws. (?r * w) div spec_flexTotal cs)"
    using sum_rowShare_split[of cs avail cs] by (simp add: spec_intrinsicTotal_def)
  with fl r show ?thesis by linarith
qed

text \<open>The width of one child, when the pass has used \<open>used\<close> columns of the row.\<close>

lemma rowChildW_spec:
  assumes W: "0 \<le> W avail" "W avail < 2 ^ 63"
    and used: "0 \<le> used" "used \<le> W avail"
    and m: "\<not> flexWeight c > 0 \<longrightarrow> 0 \<le> measureWidth c avail"
    and raw: "flexWeight c > 0 \<longrightarrow> totalFlex > 0
        \<and> quot (i64 (remaining * flexWeight c)) totalFlex = spec_rowShare row avail c"
    and fit: "flexWeight c > 0 \<longrightarrow> spec_rowShare row avail c \<le> W avail - used"
  shows "rowChildW avail remaining totalFlex (i64 (X avail + used)) c
     = (if flexWeight c > 0 then spec_rowShare row avail c
        else min (measureWidth c avail) (W avail - used))"
proof -
  have u: "i64 (i64 (X avail + used) - X avail) = used"
    using used W by (simp add: i64_diff_left i64_id in64_def)
  have l: "i64 (W avail - used) = W avail - used"
    using used W by (simp add: i64_id in64_def)
  show ?thesis
  proof (cases "flexWeight c > 0")
    case True
    have nn: "0 \<le> spec_rowShare row avail c" using True by (intro rowShare_nonneg) simp
    show ?thesis using True raw fit nn by (simp add: rowChildW_def Let_def u l)
  next
    case False
    then show ?thesis using m used by (simp add: rowChildW_def Let_def u l min_def)
  qed
qed

lemma rowChildren_widths:
  assumes W: "0 \<le> W avail" "W avail < 2 ^ 63"
    and used: "0 \<le> used" "used \<le> W avail"
    and m: "\<forall>c \<in> set suf. \<not> flexWeight c > 0 \<longrightarrow> 0 \<le> measureWidth c avail"
    and raw: "\<forall>c \<in> set suf. flexWeight c > 0 \<longrightarrow> totalFlex > 0
        \<and> quot (i64 (remaining * flexWeight c)) totalFlex = spec_rowShare row avail c"
    and fit: "(\<forall>c \<in> set suf. flexWeight c > 0 \<longrightarrow> spec_rowShare row avail c = 0)
        \<or> used + sum_list (map (spec_rowShare row avail) suf) \<le> W avail"
    and i: "i < length suf"
  shows "rowChildren avail remaining totalFlex (i64 (X avail + used)) suf ! i
     = layout (suf ! i)
         \<lparr>X = i64 (X avail + used + sum_list (take i (spec_rowWidths row avail used suf))),
          Y = Y avail, W = spec_rowWidths row avail used suf ! i, H = H avail\<rparr>"
  using used m raw fit i
proof (induction suf arbitrary: used i)
  case Nil
  then show ?case by simp
next
  case (Cons c suf)
  let ?w = "if flexWeight c > 0 then spec_rowShare row avail c
            else min (measureWidth c avail) (W avail - used)"
  have mc: "\<not> flexWeight c > 0 \<longrightarrow> 0 \<le> measureWidth c avail" using Cons.prems(3) by simp
  have rest: "0 \<le> sum_list (map (spec_rowShare row avail) suf)"
    using Cons.prems(3) by (intro sum_rowShare_nonneg) simp
  have sc: "0 \<le> spec_rowShare row avail c" using mc by (rule rowShare_nonneg)
  have fitc: "flexWeight c > 0 \<longrightarrow> spec_rowShare row avail c \<le> W avail - used"
    using Cons.prems(5) Cons.prems(2) rest by auto
  have w: "rowChildW avail remaining totalFlex (i64 (X avail + used)) c = ?w"
    using W Cons.prems(1,2) mc _ fitc by (rule rowChildW_spec) (use Cons.prems(4) in simp)
  have w0: "0 \<le> ?w" using sc mc Cons.prems(2) by (simp add: min_def)
  have w1: "used + ?w \<le> W avail"
    using fitc by (cases "flexWeight c > 0") (auto simp: min_def)
  have fit': "(\<forall>c \<in> set suf. flexWeight c > 0 \<longrightarrow> spec_rowShare row avail c = 0)
        \<or> used + ?w + sum_list (map (spec_rowShare row avail) suf) \<le> W avail"
  proof (cases "\<forall>d \<in> set (c # suf). flexWeight d > 0 \<longrightarrow> spec_rowShare row avail d = 0")
    case True
    then show ?thesis by simp
  next
    case False
    with Cons.prems(5)
    have le: "used + (spec_rowShare row avail c + sum_list (map (spec_rowShare row avail) suf))
        \<le> W avail"
      by auto
    have "?w \<le> spec_rowShare row avail c" by (simp add: spec_rowShare_def)
    with le show ?thesis by linarith
  qed
  have x': "i64 (i64 (X avail + used) + ?w) = i64 (X avail + (used + ?w))"
    by (simp only: i64_add_left add.assoc)
  show ?case
  proof (cases i)
    case 0
    then show ?thesis using w by (simp add: Let_def del: layout.simps)
  next
    case (Suc j)
    have j: "j < length suf" using Cons.prems(6) Suc by simp
    have "rowChildren avail remaining totalFlex (i64 (X avail + (used + ?w))) suf ! j
       = layout (suf ! j)
           \<lparr>X = i64 (X avail + (used + ?w)
                  + sum_list (take j (spec_rowWidths row avail (used + ?w) suf))),
            Y = Y avail, W = spec_rowWidths row avail (used + ?w) suf ! j, H = H avail\<rparr>"
    proof (rule Cons.IH)
      show "0 \<le> used + ?w" using Cons.prems(1) w0 by linarith
      show "used + ?w \<le> W avail" by (rule w1)
      show "\<forall>c \<in> set suf. \<not> flexWeight c > 0 \<longrightarrow> 0 \<le> measureWidth c avail"
        using Cons.prems(3) by simp
      show "\<forall>c \<in> set suf. flexWeight c > 0 \<longrightarrow> totalFlex > 0
        \<and> quot (i64 (remaining * flexWeight c)) totalFlex = spec_rowShare row avail c"
        using Cons.prems(4) by simp
      show "(\<forall>c \<in> set suf. flexWeight c > 0 \<longrightarrow> spec_rowShare row avail c = 0)
        \<or> used + ?w + sum_list (map (spec_rowShare row avail) suf) \<le> W avail"
        by (rule fit')
      show "j < length suf" by (rule j)
    qed
    then show ?thesis
      using Suc w x' by (simp add: Let_def add.assoc del: layout.simps)
  qed
qed

lemma rowWidths_fitting:
  assumes "\<forall>c \<in> set suf. \<not> flexWeight c > 0 \<longrightarrow> 0 \<le> measureWidth c avail"
    and "used + sum_list (map (spec_rowShare row avail) suf) \<le> W avail"
  shows "spec_rowWidths row avail used suf = map (spec_rowShare row avail) suf"
  using assms
proof (induction suf arbitrary: used)
  case Nil
  show ?case by simp
next
  case (Cons c suf)
  have rest: "0 \<le> sum_list (map (spec_rowShare row avail) suf)"
    using Cons.prems(1) by (intro sum_rowShare_nonneg) simp
  have le: "used + spec_rowShare row avail c + sum_list (map (spec_rowShare row avail) suf)
      \<le> W avail"
    using Cons.prems(2) by simp
  have w: "(if flexWeight c > 0 then spec_rowShare row avail c
            else min (measureWidth c avail) (W avail - used)) = spec_rowShare row avail c"
    using le rest by (cases "flexWeight c > 0") (auto simp: spec_rowShare_def min_def)
  have "spec_rowWidths row avail (used + spec_rowShare row avail c) suf
      = map (spec_rowShare row avail) suf"
    using Cons.prems(1) le by (intro Cons.IH) simp_all
  then show ?case using w by (simp add: Let_def)
qed

lemma length_rowChildren: "length (rowChildren avail remaining totalFlex x cs) = length cs"
  by (induction cs arbitrary: x) (simp_all add: Let_def del: layout.simps)

lemma layoutRow_widths:
  assumes W: "0 \<le> W avail" "W avail < 2 ^ 63" and X: "in64 (X avail)"
    and m: "\<forall>c \<in> set cs. \<not> flexWeight c > 0 \<longrightarrow> 0 \<le> measureWidth c avail"
    and it: "spec_intrinsicTotal cs avail < 2 ^ 63"
    and ft: "spec_flexTotal cs < 2 ^ 63"
    and prod: "\<forall>c \<in> set cs. flexWeight c > 0 \<longrightarrow>
        max 0 (W avail - spec_intrinsicTotal cs avail) * flexWeight c < 2 ^ 63"
  shows "length (LChildren (layout (Node RowNode p cs) avail)) = length cs
    \<and> (\<forall>i<length cs. LChildren (layout (Node RowNode p cs) avail) ! i
          = layout (cs ! i)
              \<lparr>X = i64 (X avail + sum_list (take i (spec_rowWidths cs avail 0 cs))),
               Y = Y avail, W = spec_rowWidths cs avail 0 cs ! i, H = H avail\<rparr>)
    \<and> (spec_intrinsicTotal cs avail \<le> W avail \<longrightarrow>
         spec_rowWidths cs avail 0 cs = map (spec_rowShare cs avail) cs)"
proof (cases "cs = []")
  case True
  then show ?thesis unfolding LChildren_layout by simp
next
  case False
  let ?it = "spec_intrinsicTotal cs avail"
  let ?ft = "spec_flexTotal cs"
  let ?r = "max 0 (W avail - ?it)"
  have it0: "0 \<le> ?it" using m by (rule intrinsicTotal_nonneg)
  have ft0: "0 \<le> ?ft" by (rule flexTotal_nonneg)
  have iit: "i64 ?it = ?it" using it0 it by (simp add: i64_id in64_def)
  have ift: "i64 ?ft = ?ft" using ft0 ft by (simp add: i64_id in64_def)
  have irem: "i64 (W avail - ?it) = W avail - ?it"
    using W it0 it by (simp add: i64_id in64_def)
  have x0: "i64 (X avail + 0) = X avail" using X by (simp add: i64_id)
  have ch: "LChildren (layout (Node RowNode p cs) avail)
            = rowChildren avail ?r ?ft (i64 (X avail + 0)) cs"
    unfolding LChildren_layout x0 using False
    by (simp add: firstPass_width iit ift irem Let_def max_def)
  have raw: "\<forall>c \<in> set cs. flexWeight c > 0 \<longrightarrow> ?ft > 0
        \<and> quot (i64 (?r * flexWeight c)) ?ft = spec_rowShare cs avail c"
  proof (intro ballI impI)
    fix c assume c: "c \<in> set cs" and fw: "flexWeight c > 0"
    from flexTotal_ge[OF c fw] fw have t: "0 < ?ft" by linarith
    have p0: "0 \<le> ?r * flexWeight c" using fw by simp
    have p1: "?r * flexWeight c < 2 ^ 63" using prod c fw by blast
    have "i64 (?r * flexWeight c) = ?r * flexWeight c"
      using p0 p1 by (intro i64_id) (simp add: in64_def)
    moreover have "quot (?r * flexWeight c) ?ft = (?r * flexWeight c) div ?ft"
      using p0 t by (rule quot_nonneg)
    ultimately show "?ft > 0 \<and> quot (i64 (?r * flexWeight c)) ?ft = spec_rowShare cs avail c"
      using t fw by (simp add: spec_rowShare_def)
  qed
  have fit: "(\<forall>c \<in> set cs. flexWeight c > 0 \<longrightarrow> spec_rowShare cs avail c = 0)
        \<or> 0 + sum_list (map (spec_rowShare cs avail) cs) \<le> W avail"
  proof (cases "?it \<le> W avail")
    case True
    then show ?thesis using sum_rowShare_le[of cs avail] by simp
  next
    case False
    then have "?r = 0" by simp
    then show ?thesis by (simp add: spec_rowShare_def)
  qed
  have z: "(0::int) \<le> 0" by simp
  have nth: "\<forall>i<length cs. rowChildren avail ?r ?ft (i64 (X avail + 0)) cs ! i
      = layout (cs ! i)
          \<lparr>X = i64 (X avail + 0 + sum_list (take i (spec_rowWidths cs avail 0 cs))),
           Y = Y avail, W = spec_rowWidths cs avail 0 cs ! i, H = H avail\<rparr>"
  proof (intro allI impI)
    fix i assume i: "i < length cs"
    show "rowChildren avail ?r ?ft (i64 (X avail + 0)) cs ! i
      = layout (cs ! i)
          \<lparr>X = i64 (X avail + 0 + sum_list (take i (spec_rowWidths cs avail 0 cs))),
           Y = Y avail, W = spec_rowWidths cs avail 0 cs ! i, H = H avail\<rparr>"
      using W z W(1) m raw fit i by (rule rowChildren_widths)
  qed
  have fitting: "?it \<le> W avail \<longrightarrow> spec_rowWidths cs avail 0 cs = map (spec_rowShare cs avail) cs"
  proof
    assume "?it \<le> W avail"
    then have "0 + sum_list (map (spec_rowShare cs avail) cs) \<le> W avail"
      using sum_rowShare_le[of cs avail] by simp
    with m show "spec_rowWidths cs avail 0 cs = map (spec_rowShare cs avail) cs"
      by (rule rowWidths_fitting)
  qed
  show ?thesis using ch nth fitting by (simp add: length_rowChildren del: layout.simps)
qed

lemma rowWidths_nth:
  "i < length suf \<Longrightarrow>
   spec_rowWidths row avail used suf ! i
   = (if flexWeight (suf ! i) > 0 then spec_rowShare row avail (suf ! i)
      else min (measureWidth (suf ! i) avail)
             (W avail - (used + sum_list (take i (spec_rowWidths row avail used suf)))))"
proof (induction suf arbitrary: used i)
  case Nil
  then show ?case by simp
next
  case (Cons c suf)
  show ?case
  proof (cases i)
    case 0
    then show ?thesis by (simp add: Let_def)
  next
    case (Suc j)
    then have "j < length suf" using Cons.prems by simp
    from Cons.IH[OF this] show ?thesis using Suc by (simp add: Let_def add.assoc)
  qed
qed

lemma layoutRow_example:
  "map (\<lambda>c. W (LRect c))
     (LChildren (Layout (Row [Text_node [0x61, 0x62], Spacer, WithFlex (Text_node [0x78]) 2]) 20 1))
   = [2, 6, 12]"
  by code_simp

text \<open>
  Claim C3, amended. For every Row node laid out in a rectangle of a width that is
  not negative, as long as the 64-bit arithmetic of the pass does not overflow (the
  measured widths of the children without flex weight are not negative, their sum,
  the sum of the flex weights and every product \<open>remaining * fw\<close> are below
  \<open>2 ^ 63\<close>), the children are laid out left to right, each in a rectangle of the
  width allocated to it: a child of the flex weight \<open>fw\<close> is allocated
  \<open>floor(remaining * fw / total_flex)\<close>, where \<open>remaining\<close> is the width of the row
  minus the sum of the measured widths of the children without flex weight, clamped
  at zero; a child without flex weight is allocated its measured width or, when that
  is less, the width that the children before it have left in the row, and so its
  measured width whenever the measured widths sum to at most the width of the row.
  In particular the row of \<open>Text("ab")\<close>, \<open>Spacer()\<close> and \<open>Text("x").flex(2)\<close> in a
  viewport of 20 by 1 has children of the widths 2, 6 and 12.
\<close>

theorem layoutRow_allocation:
  "(0 \<le> W avail \<and> in64 (W avail) \<and> in64 (X avail)
    \<and> (\<forall>c \<in> set cs. \<not> flexWeight c > 0 \<longrightarrow> 0 \<le> measureWidth c avail)
    \<and> spec_intrinsicTotal cs avail < 2 ^ 63
    \<and> spec_flexTotal cs < 2 ^ 63
    \<and> (\<forall>c \<in> set cs. flexWeight c > 0 \<longrightarrow>
          max 0 (W avail - spec_intrinsicTotal cs avail) * flexWeight c < 2 ^ 63)
    \<longrightarrow>
      length (LChildren (layout (Node RowNode p cs) avail)) = length cs
      \<and> (\<forall>i<length cs.
            LChildren (layout (Node RowNode p cs) avail) ! i
            = layout (cs ! i)
                \<lparr>X = i64 (X avail + sum_list (take i (spec_rowWidths cs avail 0 cs))),
                 Y = Y avail, W = spec_rowWidths cs avail 0 cs ! i, H = H avail\<rparr>
            \<and> spec_rowWidths cs avail 0 cs ! i
              = (if flexWeight (cs ! i) > 0
                 then (max 0 (W avail - spec_intrinsicTotal cs avail) * flexWeight (cs ! i))
                        div spec_flexTotal cs
                 else min (measureWidth (cs ! i) avail)
                        (W avail - sum_list (take i (spec_rowWidths cs avail 0 cs)))))
      \<and> (spec_intrinsicTotal cs avail \<le> W avail \<longrightarrow>
            spec_rowWidths cs avail 0 cs = map (spec_rowShare cs avail) cs))
   \<and> map (\<lambda>c. W (LRect c))
       (LChildren (Layout (Row [Text_node [0x61, 0x62], Spacer, WithFlex (Text_node [0x78]) 2]) 20 1))
     = [2, 6, 12]"
proof -
  have nth: "\<forall>i<length cs. spec_rowWidths cs avail 0 cs ! i
              = (if flexWeight (cs ! i) > 0
                 then (max 0 (W avail - spec_intrinsicTotal cs avail) * flexWeight (cs ! i))
                        div spec_flexTotal cs
                 else min (measureWidth (cs ! i) avail)
                        (W avail - sum_list (take i (spec_rowWidths cs avail 0 cs))))"
    using rowWidths_nth[of _ cs cs avail 0] by (simp add: spec_rowShare_def)
  show ?thesis
    using layoutRow_widths[of avail cs p] nth layoutRow_example
    by (simp only: in64_def) blast
qed

theorem layoutRow_allocation_witness:
  "0 \<le> W \<lparr>X = 0, Y = 0, W = 20, H = 1\<rparr>
   \<and> in64 (W \<lparr>X = 0, Y = 0, W = 20, H = 1\<rparr>) \<and> in64 (X \<lparr>X = 0, Y = 0, W = 20, H = 1\<rparr>)
   \<and> 0 \<le> measureWidth (Text_node [0x61, 0x62]) \<lparr>X = 0, Y = 0, W = 20, H = 1\<rparr>
   \<and> spec_intrinsicTotal [Text_node [0x61, 0x62], Spacer, WithFlex (Text_node [0x78]) 2]
        \<lparr>X = 0, Y = 0, W = 20, H = 1\<rparr> = 2
   \<and> spec_flexTotal [Text_node [0x61, 0x62], Spacer, WithFlex (Text_node [0x78]) 2] = 3
   \<and> spec_rowWidths [Text_node [0x61, 0x62], Spacer, WithFlex (Text_node [0x78]) 2]
        \<lparr>X = 0, Y = 0, W = 20, H = 1\<rparr> 0
        [Text_node [0x61, 0x62], Spacer, WithFlex (Text_node [0x78]) 2] = [2, 6, 12]
   \<and> LChildren (layout (Node RowNode Props0
          [Text_node [0x61, 0x62], Spacer, WithFlex (Text_node [0x78]) 2])
        \<lparr>X = 0, Y = 0, W = 20, H = 1\<rparr>) ! 2
     = layout (WithFlex (Text_node [0x78]) 2) \<lparr>X = 8, Y = 0, W = 12, H = 1\<rparr>"
proof -
  let ?cs = "[Text_node [0x61, 0x62], Spacer, WithFlex (Text_node [0x78]) 2]"
  let ?a = "\<lparr>X = 0, Y = 0, W = 20, H = 1\<rparr>"
  have w: "0 \<le> W ?a \<and> in64 (W ?a) \<and> in64 (X ?a)"
    by (simp add: in64_def)
  have fw: "flexWeight (Text_node [0x61, 0x62]) = 0" "flexWeight Spacer = 1"
    "flexWeight (WithFlex (Text_node [0x78]) 2) = 2"
    by (simp_all add: flexWeight_def Text_node_def Spacer_def WithFlex_def Props0_def)
  have mw: "measureWidth (Text_node [0x61, 0x62]) ?a = 2"
    by (simp add: Text_node_def Props0_def RuneCountInString_def)
  have it: "spec_intrinsicTotal ?cs ?a = 2"
    by (simp add: spec_intrinsicTotal_def fw mw)
  have ft: "spec_flexTotal ?cs = 3"
    by (simp add: spec_flexTotal_def fw)
  have m: "\<forall>c \<in> set ?cs. \<not> flexWeight c > 0 \<longrightarrow> 0 \<le> measureWidth c ?a"
    by (simp add: fw mw)
  have pr: "\<forall>c \<in> set ?cs. flexWeight c > 0 \<longrightarrow>
      max 0 (W ?a - spec_intrinsicTotal ?cs ?a) * flexWeight c < 2 ^ 63"
    unfolding it by (simp add: fw)
  have ws: "spec_rowWidths ?cs ?a 0 ?cs = [2, 6, 12]"
    by (simp add: spec_rowShare_def it ft fw mw Let_def)
  have hyp: "0 \<le> W ?a \<and> in64 (W ?a) \<and> in64 (X ?a)
    \<and> (\<forall>c \<in> set ?cs. \<not> flexWeight c > 0 \<longrightarrow> 0 \<le> measureWidth c ?a)
    \<and> spec_intrinsicTotal ?cs ?a < 2 ^ 63
    \<and> spec_flexTotal ?cs < 2 ^ 63
    \<and> (\<forall>c \<in> set ?cs. flexWeight c > 0 \<longrightarrow>
          max 0 (W ?a - spec_intrinsicTotal ?cs ?a) * flexWeight c < 2 ^ 63)"
    using w m pr by (simp only: it ft) simp
  have two: "(2::nat) < length ?cs" by simp
  from layoutRow_allocation[of ?a ?cs Props0] hyp two
  have "LChildren (layout (Node RowNode Props0 ?cs) ?a) ! 2
      = layout (?cs ! 2)
          \<lparr>X = i64 (X ?a + sum_list (take 2 (spec_rowWidths ?cs ?a 0 ?cs))),
           Y = Y ?a, W = spec_rowWidths ?cs ?a 0 ?cs ! 2, H = H ?a\<rparr>"
    by blast
  then have "LChildren (layout (Node RowNode Props0 ?cs) ?a) ! 2
      = layout (WithFlex (Text_node [0x78]) 2) \<lparr>X = 8, Y = 0, W = 12, H = 1\<rparr>"
    unfolding ws by (simp add: i64_def del: layout.simps)
  then show ?thesis using w mw it ft ws by (simp del: layout.simps)
qed

text \<open>
  Two texts of five runes in a row of the width 7: the second one has no flex
  weight and measures 5, but gets what is left, 2. A text of the flex weight
  \<open>2 ^ 62\<close> alone in a row of the width 4: its share
  \<open>floor(remaining * fw / total_flex)\<close> is 4, but the product \<open>4 * 2 ^ 62\<close> wraps
  to 0 and the text gets the width 0. A box around a spacer of the explicit width
  \<open>2 ^ 63 - 1\<close>, alone in a row of the width 4: it has no flex weight, the sum in
  its measure wraps to a negative width, and it gets the width 0.
\<close>

theorem layoutRow_clamped_counterexample:
  "map (\<lambda>c. W (LRect c))
     (LChildren (Layout (Row [Text_node [0x68, 0x65, 0x6c, 0x6c, 0x6f],
                               Text_node [0x77, 0x6f, 0x72, 0x6c, 0x64]]) 7 1))
   = [5, 2]
   \<and> flexWeight (Text_node [0x77, 0x6f, 0x72, 0x6c, 0x64]) = 0
   \<and> measureWidth (Text_node [0x77, 0x6f, 0x72, 0x6c, 0x64]) \<lparr>X = 0, Y = 0, W = 7, H = 1\<rparr> = 5
   \<and> map (\<lambda>c. W (LRect c))
       (LChildren (Layout (Row [WithFlex (Text_node [0x78]) (2 ^ 62)]) 4 1))
     = [0]
   \<and> spec_rowShare [WithFlex (Text_node [0x78]) (2 ^ 62)] \<lparr>X = 0, Y = 0, W = 4, H = 1\<rparr>
       (WithFlex (Text_node [0x78]) (2 ^ 62)) = 4
   \<and> map (\<lambda>c. W (LRect c))
       (LChildren (Layout (Row [Box BorderSingle (WithSize Spacer (2 ^ 63 - 1) 0)]) 4 1))
     = [0]
   \<and> flexWeight (Box BorderSingle (WithSize Spacer (2 ^ 63 - 1) 0)) = 0
   \<and> measureWidth (Box BorderSingle (WithSize Spacer (2 ^ 63 - 1) 0))
       \<lparr>X = 0, Y = 0, W = 4, H = 1\<rparr> = 1 - 2 ^ 63"
  by code_simp

section \<open>Properties of the input parser\<close>

subsection \<open>Bytes that are not UTF-8\<close>

lemma byte_exhaust:
  assumes "\<forall>n \<in> set [0..<256]. P (of_nat n :: 8 word)"
  shows "P b"
proof -
  have "unat b < 256" using unsigned_less[of b] by simp
  then have "unat b \<in> set [0..<256]" by simp
  with assms have "P (of_nat (unat b))" by blast
  then show ?thesis by simp
qed

lemma lead_invalid:
  "(0x80 \<le> b \<and> b \<le> 0xBF) \<or> 0xF8 \<le> b \<longrightarrow>
     \<not> b < (0x80::byte) \<and> b AND 0xE0 \<noteq> 0xC0 \<and> b AND 0xF0 \<noteq> 0xE0 \<and> b AND 0xF8 \<noteq> 0xF0"
  by (rule byte_exhaust[where b=b]) code_simp

lemma lead_two: "0xC0 \<le> b \<and> b \<le> 0xDF \<longrightarrow> \<not> b < (0x80::byte) \<and> b AND 0xE0 = 0xC0"
  by (rule byte_exhaust[where b=b]) code_simp

lemma lead_three:
  "0xE0 \<le> b \<and> b \<le> 0xEF \<longrightarrow> \<not> b < (0x80::byte) \<and> b AND 0xE0 \<noteq> 0xC0 \<and> b AND 0xF0 = 0xE0"
  by (rule byte_exhaust[where b=b]) code_simp

lemma lead_four:
  "0xF0 \<le> b \<and> b \<le> 0xF7 \<longrightarrow>
     \<not> b < (0x80::byte) \<and> b AND 0xE0 \<noteq> 0xC0 \<and> b AND 0xF0 \<noteq> 0xE0 \<and> b AND 0xF8 = 0xF0"
  by (rule byte_exhaust[where b=b]) code_simp

lemma printable_not_control:
  "(0x20::byte) \<le> b \<longrightarrow> b \<noteq> 0x1b \<and> b \<noteq> 0x0d \<and> b \<noteq> 0x0a \<and> b \<noteq> 0x09 \<and> b \<noteq> 0x08
      \<and> b \<noteq> 0x03 \<and> b \<noteq> 0x04 \<and> b \<noteq> 0x1a"
  by (rule byte_exhaust[where b=b]) code_simp

lemma high_printable: "(0x80::byte) \<le> b \<or> 0xC0 \<le> b \<or> 0xE0 \<le> b \<or> 0xF0 \<le> b \<or> 0xF8 \<le> b \<longrightarrow> b \<noteq> 0x7f"
  by (rule byte_exhaust[where b=b]) code_simp

lemma decodeRune_invalid_lead:
  assumes "(0x80 \<le> b \<and> b \<le> 0xBF) \<or> 0xF8 \<le> b"
  shows "decodeRune (b # rest) = (0x3F, 1)"
  using lead_invalid[of b] assms by (simp add: decodeRune_def Let_def)

lemma decodeRune_truncated:
  assumes "(0xC0 \<le> b \<and> b \<le> 0xDF \<and> length rest < 1)
         \<or> (0xE0 \<le> b \<and> b \<le> 0xEF \<and> length rest < 2)
         \<or> (0xF0 \<le> b \<and> b \<le> 0xF7 \<and> length rest < 3)"
  shows "decodeRune (b # rest) = (0x3F, 1)"
  using assms
proof (elim disjE conjE)
  assume "0xC0 \<le> b" "b \<le> 0xDF" "length rest < 1"
  then show ?thesis using lead_two[of b] by (simp add: decodeRune_def Let_def)
next
  assume "0xE0 \<le> b" "b \<le> 0xEF" "length rest < 2"
  then show ?thesis using lead_three[of b] by (simp add: decodeRune_def Let_def)
next
  assume "0xF0 \<le> b" "b \<le> 0xF7" "length rest < 3"
  then show ?thesis using lead_four[of b] by (simp add: decodeRune_def Let_def)
qed

lemma parseInput_step:
  "data \<noteq> [] \<Longrightarrow> parseStep data = Some (ks, n) \<Longrightarrow> parseInput data = ks @ parseInput (drop n data)"
  by (subst parseInput.simps[of data]) simp

lemma parseInput_Nil: "parseInput [] = []"
  by (subst parseInput.simps) simp

lemma parseStep_rune:
  assumes "0x20 \<le> b" and "b \<noteq> 0x7f"
  shows "parseStep (b # rest) =
    (case decodeRune (b # rest) of (r, sz) \<Rightarrow> Some ([\<lparr>TypeK = RuneKey, Rune = r, TextK = []\<rparr>], sz))"
proof -
  have ne: "b \<noteq> 0x1b" "b \<noteq> 0x0d" "b \<noteq> 0x0a" "b \<noteq> 0x09" "b \<noteq> 0x08" "b \<noteq> 0x03" "b \<noteq> 0x04"
    "b \<noteq> 0x1a"
    using assms(1) printable_not_control[of b] by simp_all
  have np: "\<not> hasPrefixAt (b # rest) 0 pasteStart"
    using ne(1) by (simp add: hasPrefixAt_def pasteStart_def upt_rec)
  show ?thesis
    using ne np assms by (simp add: parseStep_def)
qed

lemma lead_printable:
  "(0xC0::byte) \<le> b \<or> 0xE0 \<le> b \<or> 0xF0 \<le> b \<longrightarrow> 0x20 \<le> b \<and> b \<noteq> 0x7f"
  by (rule byte_exhaust[where b=b]) code_simp

lemma decodeRune_two:
  assumes "0xC0 \<le> b \<and> b \<le> 0xDF"
  shows "decodeRune (b # c # rest)
     = (push_bit 6 (ucast (b AND 0x1F)) OR ucast (c AND 0x3F), 2)"
proof -
  have "[1..<2] = [1::nat]" by (simp add: upt_rec)
  then show ?thesis using lead_two[of b] assms by (simp add: decodeRune_def Let_def)
qed

lemma decodeRune_three:
  assumes "0xE0 \<le> b \<and> b \<le> 0xEF"
  shows "decodeRune (b # c # d # rest)
     = (push_bit 6 (push_bit 6 (ucast (b AND 0x0F)) OR ucast (c AND 0x3F))
          OR ucast (d AND 0x3F), 3)"
proof -
  have "[1..<3] = [1::nat, 2]" by (simp add: upt_rec)
  then show ?thesis using lead_three[of b] assms by (simp add: decodeRune_def Let_def)
qed

lemma decodeRune_four:
  assumes "0xF0 \<le> b \<and> b \<le> 0xF7"
  shows "decodeRune (b # c # d # e # rest)
     = (push_bit 6 (push_bit 6 (push_bit 6 (ucast (b AND 0x07)) OR ucast (c AND 0x3F))
          OR ucast (d AND 0x3F)) OR ucast (e AND 0x3F), 4)"
proof -
  have "[1..<4] = [1::nat, 2, 3]" by (simp add: upt_rec)
  then show ?thesis using lead_four[of b] assms by (simp add: decodeRune_def Let_def)
qed

lemma parseInput_rune:
  assumes "0x20 \<le> b" and "b \<noteq> 0x7f" and "decodeRune (b # rest) = (r, sz)"
  shows "parseInput (b # rest) = \<lparr>TypeK = RuneKey, Rune = r, TextK = []\<rparr> # parseInput (drop sz (b # rest))"
proof -
  have "parseStep (b # rest) = Some ([\<lparr>TypeK = RuneKey, Rune = r, TextK = []\<rparr>], sz)"
    using parseStep_rune[OF assms(1,2), of rest] assms(3) by simp
  then show ?thesis using parseInput_step[of "b # rest"] by simp
qed

text \<open>
  Claim C5, amended. When the next byte is at least 0x20 and is not the lead byte of
  a sequence that is all there, that is, it is no lead byte at all (0x80 to 0xBF, or
  0xF8 and above) or it announces more bytes than are left (two for 0xC0 to 0xDF,
  three for 0xE0 to 0xEF, four for 0xF0 to 0xF7), then \<^verbatim>\<open>decodeRune\<close> yields \<open>?\<close>
  and the size 1, and \<^verbatim>\<open>parseInput\<close> emits a \<open>RuneKey\<close> with the rune \<open>?\<close> and goes
  on with the byte after it. Continuation bytes are not validated: a lead byte with
  enough bytes after it consumes them whatever they are, one after 0xC0 to 0xDF, two
  after 0xE0 to 0xEF and three after 0xF0 to 0xF7; the rune is made of the low bits
  of the lead byte and the low six bits of each of these bytes, and \<^verbatim>\<open>parseInput\<close>
  emits it as a \<open>RuneKey\<close> and goes on after them.
\<close>

theorem parseInput_invalid_utf8:
  "(0x20 \<le> b
    \<and> ((0x80 \<le> b \<and> b \<le> 0xBF) \<or> 0xF8 \<le> b
         \<or> (0xC0 \<le> b \<and> b \<le> 0xDF \<and> length rest < 1)
         \<or> (0xE0 \<le> b \<and> b \<le> 0xEF \<and> length rest < 2)
         \<or> (0xF0 \<le> b \<and> b \<le> 0xF7 \<and> length rest < 3))
    \<longrightarrow> decodeRune (b # rest) = (0x3F, 1)
        \<and> parseInput (b # rest) = \<lparr>TypeK = RuneKey, Rune = 0x3F, TextK = []\<rparr> # parseInput rest)
   \<and> (0xC0 \<le> b \<and> b \<le> 0xDF
    \<longrightarrow> decodeRune (b # c # rest)
          = (push_bit 6 (ucast (b AND 0x1F)) OR ucast (c AND 0x3F), 2)
        \<and> parseInput (b # c # rest)
          = \<lparr>TypeK = RuneKey,
              Rune = push_bit 6 (ucast (b AND 0x1F)) OR ucast (c AND 0x3F),
              TextK = []\<rparr> # parseInput rest)
   \<and> (0xE0 \<le> b \<and> b \<le> 0xEF
    \<longrightarrow> decodeRune (b # c # d # rest)
          = (push_bit 6 (push_bit 6 (ucast (b AND 0x0F)) OR ucast (c AND 0x3F))
               OR ucast (d AND 0x3F), 3)
        \<and> parseInput (b # c # d # rest)
          = \<lparr>TypeK = RuneKey,
              Rune = push_bit 6 (push_bit 6 (ucast (b AND 0x0F)) OR ucast (c AND 0x3F))
                       OR ucast (d AND 0x3F),
              TextK = []\<rparr> # parseInput rest)
   \<and> (0xF0 \<le> b \<and> b \<le> 0xF7
    \<longrightarrow> decodeRune (b # c # d # e # rest)
          = (push_bit 6 (push_bit 6 (push_bit 6 (ucast (b AND 0x07)) OR ucast (c AND 0x3F))
               OR ucast (d AND 0x3F)) OR ucast (e AND 0x3F), 4)
        \<and> parseInput (b # c # d # e # rest)
          = \<lparr>TypeK = RuneKey,
              Rune = push_bit 6 (push_bit 6 (push_bit 6 (ucast (b AND 0x07)) OR ucast (c AND 0x3F))
                       OR ucast (d AND 0x3F)) OR ucast (e AND 0x3F),
              TextK = []\<rparr> # parseInput rest)"
proof (intro conjI impI)
  assume a: "0x20 \<le> b
    \<and> ((0x80 \<le> b \<and> b \<le> 0xBF) \<or> 0xF8 \<le> b
         \<or> (0xC0 \<le> b \<and> b \<le> 0xDF \<and> length rest < 1)
         \<or> (0xE0 \<le> b \<and> b \<le> 0xEF \<and> length rest < 2)
         \<or> (0xF0 \<le> b \<and> b \<le> 0xF7 \<and> length rest < 3))"
  then have n7: "b \<noteq> 0x7f" using high_printable[of b] by blast
  show dr: "decodeRune (b # rest) = (0x3F, 1)"
    using a decodeRune_invalid_lead[of b rest] decodeRune_truncated[of b rest] by blast
  show "parseInput (b # rest) = \<lparr>TypeK = RuneKey, Rune = 0x3F, TextK = []\<rparr> # parseInput rest"
    using parseInput_rune[OF _ n7 dr] a by simp
next
  assume a: "0xC0 \<le> b \<and> b \<le> 0xDF"
  show dr: "decodeRune (b # c # rest)
          = (push_bit 6 (ucast (b AND 0x1F)) OR ucast (c AND 0x3F), 2)"
    using a by (rule decodeRune_two)
  show "parseInput (b # c # rest)
          = \<lparr>TypeK = RuneKey,
              Rune = push_bit 6 (ucast (b AND 0x1F)) OR ucast (c AND 0x3F),
              TextK = []\<rparr> # parseInput rest"
    using parseInput_rune[OF _ _ dr] lead_printable[of b] a by simp
next
  assume a: "0xE0 \<le> b \<and> b \<le> 0xEF"
  have p: "0x20 \<le> b \<and> b \<noteq> 0x7f" using a lead_printable[of b] by blast
  show dr: "decodeRune (b # c # d # rest)
          = (push_bit 6 (push_bit 6 (ucast (b AND 0x0F)) OR ucast (c AND 0x3F))
               OR ucast (d AND 0x3F), 3)"
    using a by (rule decodeRune_three)
  show "parseInput (b # c # d # rest)
          = \<lparr>TypeK = RuneKey,
              Rune = push_bit 6 (push_bit 6 (ucast (b AND 0x0F)) OR ucast (c AND 0x3F))
                       OR ucast (d AND 0x3F),
              TextK = []\<rparr> # parseInput rest"
    using parseInput_rune[OF _ _ dr] p by simp
next
  assume a: "0xF0 \<le> b \<and> b \<le> 0xF7"
  have p: "0x20 \<le> b \<and> b \<noteq> 0x7f" using a lead_printable[of b] by blast
  show dr: "decodeRune (b # c # d # e # rest)
          = (push_bit 6 (push_bit 6 (push_bit 6 (ucast (b AND 0x07)) OR ucast (c AND 0x3F))
               OR ucast (d AND 0x3F)) OR ucast (e AND 0x3F), 4)"
    using a by (rule decodeRune_four)
  show "parseInput (b # c # d # e # rest)
          = \<lparr>TypeK = RuneKey,
              Rune = push_bit 6 (push_bit 6 (push_bit 6 (ucast (b AND 0x07)) OR ucast (c AND 0x3F))
                       OR ucast (d AND 0x3F)) OR ucast (e AND 0x3F),
              TextK = []\<rparr> # parseInput rest"
    using parseInput_rune[OF _ _ dr] p by simp
qed

theorem parseInput_invalid_utf8_witness:
  "(0x20::byte) \<le> 0xE2 \<and> (0xE0::byte) \<le> 0xE2 \<and> (0xE2::byte) \<le> 0xEF \<and> length [0x82::byte] < 2
   \<and> parseInput [0xE2, 0x82]
      = [\<lparr>TypeK = RuneKey, Rune = 0x3F, TextK = []\<rparr>, \<lparr>TypeK = RuneKey, Rune = 0x3F, TextK = []\<rparr>]
   \<and> parseInput [0xE2, 0x28, 0x41]
      = [\<lparr>TypeK = RuneKey, Rune = 0x2A01, TextK = []\<rparr>]"
proof -
  have h1: "(0x20::byte) \<le> 0xE2 \<and> (0xE0::byte) \<le> 0xE2 \<and> (0xE2::byte) \<le> 0xEF
      \<and> length [0x82::byte] < 2"
    by simp
  have h2: "(0x20::byte) \<le> 0x82 \<and> (0x80::byte) \<le> 0x82 \<and> (0x82::byte) \<le> 0xBF"
    by simp
  have a: "parseInput [0xE2, 0x82] = \<lparr>TypeK = RuneKey, Rune = 0x3F, TextK = []\<rparr> # parseInput [0x82]"
    using parseInput_invalid_utf8[of "0xE2" "[0x82]"] h1 by blast
  have b: "parseInput [0x82] = \<lparr>TypeK = RuneKey, Rune = 0x3F, TextK = []\<rparr> # parseInput []"
    using parseInput_invalid_utf8[of "0x82" "[]"] h2 by blast
  have r: "push_bit 6 (push_bit 6 (ucast ((0xE2::byte) AND 0x0F)) OR ucast ((0x28::byte) AND 0x3F))
      OR ucast ((0x41::byte) AND 0x3F) = (0x2A01::rune)"
    by code_simp
  have c: "parseInput [0xE2, 0x28, 0x41]
      = \<lparr>TypeK = RuneKey,
          Rune = push_bit 6 (push_bit 6 (ucast ((0xE2::byte) AND 0x0F)) OR ucast ((0x28::byte) AND 0x3F))
                   OR ucast ((0x41::byte) AND 0x3F),
          TextK = []\<rparr> # parseInput []"
    using parseInput_invalid_utf8[where b = "0xE2" and rest = "[]" and c = "0x28" and d = "0x41"] h1 by blast
  show ?thesis using h1 a b c parseInput_Nil by (simp only: r)
qed

text \<open>
  Continuation bytes are not checked: after the lead byte 0xC3 the byte 0x41, which
  is no continuation byte, is consumed with it and the two decode to U+00C1.
\<close>

theorem parseInput_bad_continuation_counterexample:
  "decodeRune [0xC3, 0x41] = (0xC1, 2)
   \<and> parseInput [0xC3, 0x41] = [\<lparr>TypeK = RuneKey, Rune = 0xC1, TextK = []\<rparr>]
   \<and> parseInput [0xC3, 0x41] \<noteq> \<lparr>TypeK = RuneKey, Rune = 0x3F, TextK = []\<rparr> # parseInput [0x41]"
  by code_simp

subsection \<open>Unrecognized control sequences\<close>

lemma find_upt_first:
  assumes "k < n" and "P k" and "\<forall>j<k. \<not> P j"
  shows "List.find P [0..<n] = Some k"
  using assms by (auto simp: find_Some_iff intro!: exI[of _ k])

lemma find_upt_none: "\<forall>j<n. \<not> P j \<Longrightarrow> List.find P [0..<n] = None"
  by (simp add: find_None_iff)

lemma skipCSI_final:
  assumes "\<forall>b \<in> set pre. \<not> (0x40 \<le> b \<and> b \<le> 0x7E)" and "0x40 \<le> f \<and> f \<le> 0x7E"
  shows "skipCSI (pre @ f # post) = length pre + 1"
proof -
  let ?d = "pre @ f # post"
  have "List.find (\<lambda>j. ?d ! j \<ge> 0x40 \<and> ?d ! j \<le> 0x7E) [0..<length ?d] = Some (length pre)"
  proof (rule find_upt_first)
    show "length pre < length ?d" by simp
    show "?d ! length pre \<ge> 0x40 \<and> ?d ! length pre \<le> 0x7E" using assms(2) by simp
    show "\<forall>j<length pre. \<not> (?d ! j \<ge> 0x40 \<and> ?d ! j \<le> 0x7E)"
      using assms(1) by (auto simp: nth_append)
  qed
  then show ?thesis by (simp add: skipCSI_def)
qed

lemma skipCSI_none:
  assumes "\<forall>b \<in> set data. \<not> (0x40 \<le> b \<and> b \<le> 0x7E)"
  shows "skipCSI data = 0"
proof -
  have "List.find (\<lambda>j. data ! j \<ge> 0x40 \<and> data ! j \<le> 0x7E) [0..<length data] = None"
    using assms by (intro find_upt_none) auto
  then show ?thesis by (simp add: skipCSI_def)
qed

lemma not_final_neq:
  assumes "\<not> (0x40 \<le> b \<and> b \<le> (0x7E::byte))"
  shows "b \<noteq> 0x41" "b \<noteq> 0x42" "b \<noteq> 0x43" "b \<noteq> 0x44" "b \<noteq> 0x48" "b \<noteq> 0x46" "b \<noteq> 0x5a"
    "b \<noteq> 0x49" "b \<noteq> 0x4f" "b \<noteq> 0x7e" "b \<noteq> 0x75" "b \<noteq> 0x4d" "b \<noteq> 0x6d"
  using assms by auto

text \<open>Every rule of \<^verbatim>\<open>parseCSI\<close> ends in a final byte.\<close>

lemma parseCSI_no_final:
  assumes nf: "\<forall>b \<in> set data. \<not> (0x40 \<le> b \<and> b \<le> 0x7E)"
  shows "parseCSI data = (Key0, 0)"
proof (cases "data = []")
  case True
  then show ?thesis by (simp add: parseCSI_def)
next
  case False
  have nth: "\<And>i. i < length data \<Longrightarrow> \<not> (0x40 \<le> data ! i \<and> data ! i \<le> 0x7E)"
    using nf by auto
  have 0: "0 < length data" using False by simp
  have l: "csiLetter data = None"
    using not_final_neq[OF nth[OF 0]] by (simp add: csiLetter_def)
  have a: "csiAlt data = None"
  proof (cases "3 < length data")
    case True
    then show ?thesis using not_final_neq[OF nth[OF True]] by (simp add: csiAlt_def)
  next
    case False
    then show ?thesis by (simp add: csiAlt_def)
  qed
  have t: "csiTilde data = None"
  proof (cases "1 < length data")
    case True
    then show ?thesis using not_final_neq[OF nth[OF True]] by (simp add: csiTilde_def)
  next
    case False
    then show ?thesis by (simp add: csiTilde_def)
  qed
  have k: "csiKitty data = None"
  proof (cases "4 < length data")
    case True
    then show ?thesis using not_final_neq[OF nth[OF True]] by (simp add: csiKitty_def)
  next
    case False
    then show ?thesis by (simp add: csiKitty_def)
  qed
  have "\<forall>j \<in> set [1..<length data]. \<not> (data ! j = 0x4d \<or> data ! j = 0x6d)"
  proof
    fix j assume "j \<in> set [1..<length data]"
    then have "j < length data" by simp
    from not_final_neq[OF nth[OF this]] show "\<not> (data ! j = 0x4d \<or> data ! j = 0x6d)" by simp
  qed
  then have "List.find (\<lambda>j. data ! j = 0x4d \<or> data ! j = 0x6d) [1..<length data] = None"
    by (simp only: find_None_iff) blast
  then have s: "csiSGRMouse data = None"
    by (simp add: csiSGRMouse_def)
  have m: "csiMouse data = None"
    using not_final_neq[OF nth[OF 0]] by (simp add: csiMouse_def)
  show ?thesis using False l a t k s m by (simp add: parseCSI_def)
qed

lemma hasPrefixAt_0: "hasPrefixAt data 0 pre = (take (length pre) data = pre)"
proof (cases "length pre \<le> length data")
  case True
  then have "(take (length pre) data = pre) = (\<forall>i<length pre. data ! i = pre ! i)"
    by (simp add: list_eq_iff_nth_eq)
  moreover have "(\<forall>i\<in>{0..<length pre}. data ! i = pre ! i) = (\<forall>i<length pre. data ! i = pre ! i)"
    by auto
  ultimately show ?thesis using True by (simp add: hasPrefixAt_def list_all_iff)
next
  case False
  then have "length (take (length pre) data) \<noteq> length pre" by simp
  then have "take (length pre) data \<noteq> pre" by metis
  then show ?thesis using False by (simp add: hasPrefixAt_def)
qed

lemma parseStep_CSI:
  assumes "\<not> hasPrefixAt (0x1b # 0x5b # rest) 0 pasteStart"
  shows "parseStep (0x1b # 0x5b # rest) =
     (case parseCSI rest of (k, consumed) \<Rightarrow>
        if consumed > 0 then Some ([k], 2 + consumed)
        else if skipCSI rest > 0 then Some ([], 2 + skipCSI rest)
        else Some ([key Escape], 1))"
  using assms by (simp add: parseStep_def Let_def split: prod.splits)

text \<open>
  Claim C4, amended. Let the bytes after \<open>ESC [\<close> match no rule of \<^verbatim>\<open>parseCSI\<close> and
  not open a bracketed paste. If a final byte (0x40 to 0x7E) occurs among them, the
  parser skips through the first one, emits nothing for the skipped bytes and goes on
  with the byte after it. If none occurs, no rule can match; the parser then emits
  \<open>Escape\<close>, then the rune \<open>[\<close>, and goes on with the bytes after the \<open>[\<close>.
\<close>

theorem parseInput_unrecognized_CSI:
  "(snd (parseCSI (pre @ f # post)) = 0
      \<and> \<not> hasPrefixAt (0x1b # 0x5b # pre @ f # post) 0 pasteStart
      \<and> (\<forall>b \<in> set pre. \<not> (0x40 \<le> b \<and> b \<le> 0x7E)) \<and> 0x40 \<le> f \<and> f \<le> 0x7E
     \<longrightarrow> parseInput (0x1b # 0x5b # pre @ f # post) = parseInput post)
   \<and> ((\<forall>b \<in> set rest. \<not> (0x40 \<le> b \<and> b \<le> 0x7E))
     \<longrightarrow> snd (parseCSI rest) = 0
       \<and> parseInput (0x1b # 0x5b # rest)
         = key Escape # \<lparr>TypeK = RuneKey, Rune = 0x5b, TextK = []\<rparr> # parseInput rest)"
proof (intro conjI impI)
  assume a: "snd (parseCSI (pre @ f # post)) = 0
      \<and> \<not> hasPrefixAt (0x1b # 0x5b # pre @ f # post) 0 pasteStart
      \<and> (\<forall>b \<in> set pre. \<not> (0x40 \<le> b \<and> b \<le> 0x7E)) \<and> 0x40 \<le> f \<and> f \<le> 0x7E"
  then have sk: "skipCSI (pre @ f # post) = length pre + 1"
    using skipCSI_final[of pre f post] by blast
  have "parseStep (0x1b # 0x5b # pre @ f # post) = Some ([], 2 + (length pre + 1))"
    using a sk parseStep_CSI[of "pre @ f # post"] by (auto split: prod.splits)
  from parseInput_step[OF _ this]
  show "parseInput (0x1b # 0x5b # pre @ f # post) = parseInput post" by simp
next
  assume nf: "\<forall>b \<in> set rest. \<not> (0x40 \<le> b \<and> b \<le> 0x7E)"
  show "snd (parseCSI rest) = 0" using parseCSI_no_final[OF nf] by simp
next
  assume nf: "\<forall>b \<in> set rest. \<not> (0x40 \<le> b \<and> b \<le> 0x7E)"
  have np: "\<not> hasPrefixAt (0x1b # 0x5b # rest) 0 pasteStart"
  proof
    assume "hasPrefixAt (0x1b # 0x5b # rest) 0 pasteStart"
    then have "take (length pasteStart) (0x1b # 0x5b # rest) = pasteStart"
      by (simp add: hasPrefixAt_0)
    then have "set pasteStart \<subseteq> set (0x1b # 0x5b # rest)"
      by (metis set_take_subset)
    then have "0x7e \<in> set rest" by (simp add: pasteStart_def)
    with nf show False by auto
  qed
  have "parseStep (0x1b # 0x5b # rest) = Some ([key Escape], 1)"
    using parseStep_CSI[OF np] parseCSI_no_final[OF nf] skipCSI_none[OF nf] by simp
  from parseInput_step[OF _ this]
  have 1: "parseInput (0x1b # 0x5b # rest) = key Escape # parseInput (0x5b # rest)" by simp
  have "parseStep (0x5b # rest) = Some ([\<lparr>TypeK = RuneKey, Rune = 0x5b, TextK = []\<rparr>], 1)"
    by (simp add: parseStep_def hasPrefixAt_0 pasteStart_def decodeRune_def)
  from parseInput_step[OF _ this]
  have 2: "parseInput (0x5b # rest) = \<lparr>TypeK = RuneKey, Rune = 0x5b, TextK = []\<rparr> # parseInput rest"
    by simp
  show "parseInput (0x1b # 0x5b # rest)
         = key Escape # \<lparr>TypeK = RuneKey, Rune = 0x5b, TextK = []\<rparr> # parseInput rest"
    using 1 2 by simp
qed

theorem parseInput_unrecognized_CSI_witness:
  "snd (parseCSI ([0x31, 0x3b, 0x35] @ 0x41 # [0x78])) = 0
   \<and> \<not> hasPrefixAt (0x1b # 0x5b # [0x31, 0x3b, 0x35] @ 0x41 # [0x78]) 0 pasteStart
   \<and> parseInput [0x1b, 0x5b, 0x31, 0x3b, 0x35, 0x41, 0x78] = parseInput [0x78]
   \<and> parseInput [0x78] = [\<lparr>TypeK = RuneKey, Rune = 0x78, TextK = []\<rparr>]
   \<and> parseInput [0x1b, 0x5b, 0x31, 0x3b]
       = [key Escape, \<lparr>TypeK = RuneKey, Rune = 0x5b, TextK = []\<rparr>,
          \<lparr>TypeK = RuneKey, Rune = 0x31, TextK = []\<rparr>, \<lparr>TypeK = RuneKey, Rune = 0x3b, TextK = []\<rparr>]"
proof -
  have p: "snd (parseCSI ([0x31, 0x3b, 0x35] @ 0x41 # [0x78])) = 0"
    by code_simp
  have h: "\<not> hasPrefixAt (0x1b # 0x5b # [0x31, 0x3b, 0x35] @ 0x41 # [0x78]) 0 pasteStart"
    by code_simp
  have x: "parseInput [0x78] = [\<lparr>TypeK = RuneKey, Rune = 0x78, TextK = []\<rparr>]"
    by code_simp
  have y: "parseInput [0x31, 0x3b]
     = [\<lparr>TypeK = RuneKey, Rune = 0x31, TextK = []\<rparr>, \<lparr>TypeK = RuneKey, Rune = 0x3b, TextK = []\<rparr>]"
    by code_simp
  from parseInput_unrecognized_CSI[of "[0x31, 0x3b, 0x35]" "0x41" "[0x78]" "[0x31, 0x3b]"] p h
  have "parseInput [0x1b, 0x5b, 0x31, 0x3b, 0x35, 0x41, 0x78] = parseInput [0x78]
     \<and> parseInput [0x1b, 0x5b, 0x31, 0x3b]
         = key Escape # \<lparr>TypeK = RuneKey, Rune = 0x5b, TextK = []\<rparr> # parseInput [0x31, 0x3b]"
    by simp
  with p h x y show ?thesis by simp
qed

text \<open>
  The unrecognized sequence \<open>ESC [ 1 ; 5\<close>, cut before its final byte, surfaces as
  \<open>Escape\<close> and four runes.
\<close>

theorem parseInput_incomplete_CSI_counterexample:
  "snd (parseCSI [0x31, 0x3b, 0x35]) = 0
   \<and> parseInput [0x1b, 0x5b, 0x31, 0x3b, 0x35]
       = [key Escape, \<lparr>TypeK = RuneKey, Rune = 0x5b, TextK = []\<rparr>,
          \<lparr>TypeK = RuneKey, Rune = 0x31, TextK = []\<rparr>, \<lparr>TypeK = RuneKey, Rune = 0x3b, TextK = []\<rparr>,
          \<lparr>TypeK = RuneKey, Rune = 0x35, TextK = []\<rparr>]"
  by code_simp

subsection \<open>Bracketed paste\<close>

text \<open>
  Within one buffer a paste whose text holds no ESC gives one \<open>Paste\<close> event with
  that text, and parsing goes on behind the end marker.
\<close>

lemma indexBytes_first:
  assumes "0x1b \<notin> set text"
  shows "indexBytes (text @ pasteEnd @ rest) pasteEnd = Some (length text)"
proof -
  let ?h = "text @ pasteEnd @ rest"
  let ?P = "\<lambda>i. list_all (\<lambda>j. ?h ! (i + j) = pasteEnd ! j) [0..<length pasteEnd]"
  have len: "length pasteEnd = 6" by (simp add: pasteEnd_def)
  have "List.find ?P [0..<Suc (length ?h) - length pasteEnd] = Some (length text)"
  proof (rule find_upt_first)
    show "length text < Suc (length ?h) - length pasteEnd" by (simp add: len)
    show "?P (length text)" by (simp add: list_all_iff nth_append)
    show "\<forall>j<length text. \<not> ?P j"
    proof (intro allI impI)
      fix j assume j: "j < length text"
      then have "text ! j \<in> set text" by (rule nth_mem)
      with assms have "text ! j \<noteq> 0x1b" by metis
      then have "?h ! (j + 0) \<noteq> pasteEnd ! 0"
        using j by (simp add: nth_append pasteEnd_def)
      moreover have "(0::nat) \<in> set [0..<length pasteEnd]" by (simp add: len)
      ultimately show "\<not> ?P j" unfolding list_all_iff by (metis add_0_right)
    qed
  qed
  then show ?thesis by (simp add: indexBytes_def)
qed

lemma parseInput_paste:
  assumes "0x1b \<notin> set text"
  shows "parseInput (pasteStart @ text @ pasteEnd @ rest)
     = \<lparr>TypeK = Paste, Rune = 0, TextK = text\<rparr> # parseInput rest"
proof -
  let ?d = "pasteStart @ text @ pasteEnd @ rest"
  have ls: "length pasteStart = 6" and le: "length pasteEnd = 6"
    by (simp_all add: pasteStart_def pasteEnd_def)
  have pre: "hasPrefixAt ?d 0 pasteStart" by (simp add: hasPrefixAt_0)
  have dr: "drop (length pasteStart) ?d = text @ pasteEnd @ rest" by simp
  have st: "parseStep ?d
      = Some ([\<lparr>TypeK = Paste, Rune = 0, TextK = text\<rparr>],
              length pasteStart + length text + length pasteEnd)"
    unfolding parseStep_def Let_def dr indexBytes_first[OF assms] using pre by simp
  have ne: "?d \<noteq> []" by (simp add: pasteStart_def)
  from parseInput_step[OF ne st] show ?thesis by (simp add: ls le)
qed

text \<open>
  Claim C2. A bracketed paste is to yield exactly one \<open>Paste\<close> event with the bytes
  between the markers, also when it spans several reads. The parser does so when the
  chunk that holds the start marker does not end in ESC (the lemma after this one), but
  it tests for a trailing ESC before it looks for a paste: when the read is cut
  right after the ESC of the end marker, the paste \<open>a\<close> is lost and no event at all
  is produced.
\<close>

theorem ReadKeys_paste_lost:
  "ReadKeys [Data (pasteStart @ [0x61, 0x1b]), Data [0x5b, 0x32, 0x30, 0x31, 0x7e]] = []"
  by code_simp

text \<open>The paste \<open>partial\<close>, cut in the middle of its text, arrives as one event.\<close>

lemma ReadKeys_paste_across_reads:
  "ReadKeys [Data (pasteStart @ [0x70, 0x61, 0x72]), Data ([0x74, 0x69, 0x61, 0x6c] @ pasteEnd)]
     = [\<lparr>TypeK = Paste, Rune = 0, TextK = [0x70, 0x61, 0x72, 0x74, 0x69, 0x61, 0x6c]\<rparr>]"
  by code_simp

section \<open>Properties of the terminal setup\<close>

text \<open>
  Claim C8, amended. Whatever the loop writes and whichever way it is left, \<^verbatim>\<open>Run\<close>
  writes first: enter alt screen, hide cursor, enable focus reporting, enable mouse
  reporting (1000 then 1006), clear screen; and last, undoing them in reverse order:
  disable mouse reporting (1006 then 1000), disable focus reporting, show cursor,
  leave alt screen. Nothing else is written around the frames.
\<close>

theorem Run_output:
  "fst (Run frames how)
     = (CHR 0x1B # ''[?1049h'') @ (CHR 0x1B # ''[?25l'') @ (CHR 0x1B # ''[?1004h'')
       @ (CHR 0x1B # ''[?1000h'') @ (CHR 0x1B # ''[?1006h'') @ (CHR 0x1B # ''[2J'')
       @ frames
       @ (CHR 0x1B # ''[?1006l'') @ (CHR 0x1B # ''[?1000l'') @ (CHR 0x1B # ''[?1004l'')
       @ (CHR 0x1B # ''[?25h'') @ (CHR 0x1B # ''[?1049l'')"
  by (simp add: Run_def EnterAltScreen_def HideCursor_def EnableFocusReporting_def
      EnableMouseReporting_def ClearScreen_def DisableMouseReporting_def
      DisableFocusReporting_def ShowCursor_def LeaveAltScreen_def)

text \<open>
  \<^verbatim>\<open>Run\<close> never calls \<^verbatim>\<open>EnableBracketedPaste\<close> or \<^verbatim>\<open>DisableBracketedPaste\<close>: a run
  that is left at once has written neither sequence.
\<close>

theorem Run_no_bracketed_paste_counterexample:
  "\<not> sublist (EnableBracketedPaste []) (fst (Run [] QuitCtrlC))
   \<and> \<not> sublist (DisableBracketedPaste []) (fst (Run [] QuitCtrlC))"
  by code_simp

end
